theory Spec2Isabelle
  imports Main "HOL-Library.Word" "HOL-Library.Sublist"
begin

section \<open>Data model\<close>

text \<open>
  A shallow embedding of the radix tree of package \<open>rtree\<close> (version v1.0.2).
  Go strings are byte sequences, here \<open>string\<close> (a list of 8-bit characters); the
  three special runes are ASCII, so the rune-based library calls of the source
  (\<open>strings.ContainsRune\<close>, \<open>strings.IndexRune\<close>, \<open>strings.Count\<close>,
  \<open>strings.Split\<close>) act bytewise. Lengths and indices are \<open>nat\<close>; the one place
  where the source narrows an index (\<open>uint8(i)\<close>) is an \<open>8 word\<close>.
\<close>

definition slash :: char where
  "slash = CHR ''/''"

definition curlyStart :: char where
  "curlyStart = CHR ''{''"

definition curlyEnd :: char where
  "curlyEnd = CHR ''}''"

datatype error =
    ErrBadPathParamSyntax
  | ErrKeyIsAlreadyStored
  | ErrKeyIsEmpty
  | ErrMissingSlashPrefix
  | ErrNoCommonPrefix
  | ErrPresentSlashSuffix
  | ErrRootIsNil
  | ErrTreeIsNil

text \<open>\<open>paramInfo\<close>: the name of a path parameter and its segment position (\<open>uint8\<close>).\<close>

record paramInfo =
  pkey :: string
  pos :: "8 word"

text \<open>\<open>NodeValue\<close>: the stored value and the parameter descriptors of its key.\<close>

record 'a NodeValue =
  val :: 'a
  params :: "paramInfo list"

text \<open>
  \<open>Node\<close>: key fragment, optional payload (\<open>nil\<close> is \<open>None\<close>), children in
  registration order. Nodes are owned by their parent and child pointers are never
  \<open>nil\<close>, so the pointer structure is a tree and is modelled by value.
\<close>

datatype 'a Node = Node (key: string) (nodeValue: "'a NodeValue option") (children: "'a Node list")

text \<open>\<open>Tree\<close>: the root pointer (the lock is not modelled). A \<open>nil\<close> tree is \<open>None\<close>.\<close>

record 'a Tree =
  root :: "'a Node option"

type_synonym matchedParams = "string \<rightharpoonup> string"

record 'a FoundNode =
  fvalue :: 'a
  fparams :: matchedParams

definition IsLeaf :: "'a Node \<Rightarrow> bool" where
  "IsLeaf n = (nodeValue n \<noteq> None)"

definition New :: "'a Tree" where
  "New = \<lparr>root = None\<rparr>"

definition createNewNode :: "string \<Rightarrow> 'a NodeValue option \<Rightarrow> 'a Node list \<Rightarrow> 'a Node" where
  "createNewNode k v chs = Node k v chs"

definition createNewNodeValue :: "'a \<Rightarrow> paramInfo list \<Rightarrow> 'a NodeValue" where
  "createNewNodeValue v paramsInfo = \<lparr>val = v, params = paramsInfo\<rparr>"

definition addToChildren :: "'a Node \<Rightarrow> 'a Node \<Rightarrow> 'a Node" where
  "addToChildren n newNode = Node (key n) (nodeValue n) (children n @ [newNode])"

section \<open>String utilities\<close>

text \<open>Go's \<open>strings.IndexRune\<close>: the index of the first occurrence, or \<open>-1\<close>.\<close>

fun indexRune :: "string \<Rightarrow> char \<Rightarrow> int" where
  "indexRune [] c = - 1"
| "indexRune (x # xs) c =
     (if x = c then 0
      else (let r = indexRune xs c in if r = - 1 then - 1 else r + 1))"

text \<open>Go's \<open>strings.Split\<close> with a one-byte separator; the empty string gives \<open>[[]]\<close>.\<close>

fun split_go :: "string \<Rightarrow> char \<Rightarrow> string list" where
  "split_go [] sep = [[]]"
| "split_go (c # cs) sep =
     (if c = sep then [] # split_go cs sep
      else (case split_go cs sep of
              w # ws \<Rightarrow> (c # w) # ws
            | [] \<Rightarrow> [[c]]))"

definition min_go :: "nat \<Rightarrow> nat \<Rightarrow> nat" where
  "min_go num1 num2 = (if num1 > num2 then num2 else num1)"

function lcp_loop :: "string \<Rightarrow> string \<Rightarrow> nat \<Rightarrow> nat \<Rightarrow> nat" where
  "lcp_loop str1 str2 maxVal counter =
     (if counter < maxVal \<and> str1 ! counter = str2 ! counter
      then lcp_loop str1 str2 maxVal (counter + 1)
      else counter)"
  by pat_completeness auto
termination
  by (relation "measure (\<lambda>(str1, str2, maxVal, counter). maxVal - counter)") auto

declare lcp_loop.simps [simp del]

definition longestCommonPrefix :: "string \<Rightarrow> string \<Rightarrow> nat" where
  "longestCommonPrefix str1 str2 = lcp_loop str1 str2 (min_go (length str1) (length str2)) 0"

section \<open>The offset scanner\<close>

function getOffsets_loop :: "string \<Rightarrow> string \<Rightarrow> nat \<Rightarrow> nat \<Rightarrow> bool \<Rightarrow> nat \<times> nat \<times> bool" where
  "getOffsets_loop storedKey searchKey i j isWildcard =
     (if i \<ge> length storedKey then (i, j, isWildcard)
      else if j \<ge> length searchKey \<and> \<not> isWildcard then (i, j, isWildcard)
      else if storedKey ! i = curlyStart then
        getOffsets_loop storedKey searchKey (i + 1) j True
      else if storedKey ! i = curlyEnd then
        (let cSearchRem = drop j searchKey;
             nextSlashIdx = indexRune cSearchRem slash
         in getOffsets_loop storedKey searchKey (i + 1)
              (j + (if nextSlashIdx = - 1 then length cSearchRem else nat nextSlashIdx)) False)
      else if isWildcard then
        getOffsets_loop storedKey searchKey (i + 1) j isWildcard
      else if storedKey ! i \<noteq> searchKey ! j then (i, j, isWildcard)
      else getOffsets_loop storedKey searchKey (i + 1) (j + 1) isWildcard)"
  by pat_completeness auto
termination
  by (relation "measure (\<lambda>(storedKey, searchKey, i, j, isWildcard). length storedKey - i)") auto

declare getOffsets_loop.simps [simp del]

definition getOffsets :: "string \<Rightarrow> string \<Rightarrow> bool \<Rightarrow> nat \<times> nat \<times> bool" where
  "getOffsets storedKey searchKey isWildcard = getOffsets_loop storedKey searchKey 0 0 isWildcard"

section \<open>Key validation\<close>

function checkPathParams_loop :: "string \<Rightarrow> bool \<Rightarrow> nat \<Rightarrow> error option" where
  "checkPathParams_loop url insideParam counter =
     (if counter < length url then
        (if url ! counter = slash \<and> insideParam then Some ErrBadPathParamSyntax
         else if url ! counter = curlyStart \<and> insideParam then Some ErrBadPathParamSyntax
         else
           (let insideParam1 = (if url ! counter = curlyStart then True else insideParam)
            in if url ! counter = curlyEnd \<and> \<not> insideParam1 then Some ErrBadPathParamSyntax
               else
                 (let insideParam2 = (if url ! counter = curlyEnd then False else insideParam1)
                  in checkPathParams_loop url insideParam2 (counter + 1))))
      else if insideParam then Some ErrBadPathParamSyntax
      else None)"
  by pat_completeness auto
termination
  by (relation "measure (\<lambda>(url, insideParam, counter). length url - counter)") auto

declare checkPathParams_loop.simps [simp del]

definition checkPathParams :: "string \<Rightarrow> error option" where
  "checkPathParams url =
     (if curlyStart \<notin> set url \<and> curlyEnd \<notin> set url then None
      else checkPathParams_loop url False 0)"

text \<open>
  \<open>checkUrl\<close> reads \<open>url[0]\<close> and \<open>url[len(url)-1]\<close>; \<open>Insert\<close> calls it only
  after the empty key has been rejected.
\<close>

definition checkUrl :: "string \<Rightarrow> error option" where
  "checkUrl url =
     (if url ! 0 \<noteq> slash then Some ErrMissingSlashPrefix
      else if url ! (length url - 1) = slash \<and> url \<noteq> [slash] then Some ErrPresentSlashSuffix
      else checkPathParams url)"

text \<open>
  The repository also holds an older \<open>tree.go\<close> with its own validator. Its
  \<open>checkUrl\<close> has the trailing-slash test without the exception for the key \<open>/\<close>. Its
  \<open>checkPathParams\<close> tests \<open>url[counter] == slash\<close> and \<open>insideParam\<close> in two nested
  \<open>if\<close>s where version v1.0.2 joins them with \<open>&&\<close>; no statement stands between the
  two tests, so the loop is the same function and \<open>checkPathParams\<close> stands for both.
\<close>

definition tree_checkUrl :: "string \<Rightarrow> error option" where
  "tree_checkUrl url =
     (if url ! 0 \<noteq> slash then Some ErrMissingSlashPrefix
      else if url ! (length url - 1) = slash then Some ErrPresentSlashSuffix
      else checkPathParams url)"

text \<open>
  \<open>Insert\<close> of the older \<open>tree.go\<close>, up to its call of \<open>checkUrl\<close>: the error with which
  it returns before it reads or changes the tree, or \<open>None\<close> when it goes on to the
  insertion proper. (The nodes of that file hold the value and a leaf flag instead of a
  payload pointer; its insertion proper is not modelled.)
\<close>

definition tree_Insert_validate :: "'t option \<Rightarrow> string \<Rightarrow> error option" where
  "tree_Insert_validate t k =
     (case t of
        None \<Rightarrow> Some ErrTreeIsNil
      | Some tr \<Rightarrow> (if k = [] then Some ErrKeyIsEmpty else tree_checkUrl k))"

section \<open>Path parameters\<close>

text \<open>
  \<open>getPathParams\<close> allocates one zero-valued descriptor per \<open>{\<close> of the key and
  then fills the slice from the front, one entry per \<open>/\<close>-separated token that
  contains a \<open>{\<close> and has at least two bytes. The slice comes from \<open>make\<close> and is
  never \<open>nil\<close>; the model has one empty list. A write \<open>params[counter]\<close> beyond the
  length would panic in the source and is a no-op of \<open>list_update\<close>; the number of
  tokens that contain a \<open>{\<close> never exceeds the number of \<open>{\<close>, so the write is always
  in range (lemma \<open>paramTokens_le\<close> below).
\<close>

fun getPathParams_loop :: "(nat \<times> string) list \<Rightarrow> paramInfo list \<Rightarrow> nat \<Rightarrow> paramInfo list" where
  "getPathParams_loop [] ps counter = ps"
| "getPathParams_loop ((i, el) # rest) ps counter =
     (if curlyStart \<notin> set el then getPathParams_loop rest ps counter
      else
        (let l = length el
         in if l < 2 then getPathParams_loop rest ps counter
            else getPathParams_loop rest
                   (ps[counter := \<lparr>pkey = drop 1 (take (l - 1) el), pos = of_nat i\<rparr>])
                   (counter + 1)))"

definition getPathParams :: "string \<Rightarrow> paramInfo list" where
  "getPathParams v =
     (let paramCount = count_list v curlyStart;
          ps = replicate paramCount \<lparr>pkey = [], pos = 0\<rparr>;
          splitted = split_go v slash
      in getPathParams_loop (enumerate 0 splitted) ps 0)"

fun matchParams_loop :: "paramInfo list \<Rightarrow> string list \<Rightarrow> matchedParams \<Rightarrow> matchedParams" where
  "matchParams_loop [] spl mp = mp"
| "matchParams_loop (p # rest) spl mp =
     (let ppos = unat (pos p)
      in if ppos \<ge> length spl then matchParams_loop rest spl mp
         else matchParams_loop rest spl (mp(pkey p \<mapsto> spl ! ppos)))"

definition matchParams :: "paramInfo list \<Rightarrow> string \<Rightarrow> matchedParams" where
  "matchParams ps v = matchParams_loop ps (split_go v slash) Map.empty"

section \<open>Insertion\<close>

text \<open>
  The source mutates nodes in place and returns an error value. The model passes the
  node through: every function returns the node as it is after the call together with
  the error (\<open>None\<close> is Go's \<open>nil\<close> error). \<open>iterateInsert\<close> receives a node in the
  source and ranges over its children; the model passes it the children and returns
  them as the loop leaves them.
\<close>

fun insertRec :: "'a Node \<Rightarrow> string \<Rightarrow> 'a NodeValue \<Rightarrow> 'a Node \<times> error option"
  and iterateInsert :: "'a Node list \<Rightarrow> string \<Rightarrow> 'a NodeValue \<Rightarrow> 'a Node list \<times> error option"
where
  "insertRec (Node nkey nval chs) k v =
     (let lcp = longestCommonPrefix nkey k
      in if lcp = 0 then (Node nkey nval chs, Some ErrNoCommonPrefix)
         else
           (let currentKeyLen = length nkey; keyLen = length k
            in if currentKeyLen = lcp \<and> keyLen = lcp then
                 (if IsLeaf (Node nkey nval chs) then (Node nkey nval chs, Some ErrKeyIsAlreadyStored)
                  else (Node nkey (Some v) chs, None))
               else if currentKeyLen > lcp then
                 (let cNewNode = createNewNode (drop lcp nkey) nval chs;
                      keyRem = drop lcp k
                  in if keyRem = [] then (Node (take lcp nkey) (Some v) [cNewNode], None)
                     else
                       (let newNode = createNewNode keyRem (Some v) []
                        in (Node (take lcp nkey) None [cNewNode, newNode], None)))
               else
                 (let keyRem = drop lcp k
                  in case iterateInsert chs keyRem v of
                       (chs', None) \<Rightarrow> (Node nkey nval chs', None)
                     | (chs', Some err) \<Rightarrow>
                         (if err \<noteq> ErrNoCommonPrefix then (Node nkey nval chs', Some err)
                          else (addToChildren (Node nkey nval chs')
                                  (createNewNode keyRem (Some v) []), None)))))"
| "iterateInsert [] k v = ([], Some ErrNoCommonPrefix)"
| "iterateInsert (ch # rest) k v =
     (case insertRec ch k v of
        (ch', None) \<Rightarrow> (ch' # rest, None)
      | (ch', Some insertErr) \<Rightarrow>
          (if insertErr \<noteq> ErrNoCommonPrefix then (ch' # rest, Some insertErr)
           else (case iterateInsert rest k v of (rest', e) \<Rightarrow> (ch' # rest', e))))"

definition Insert :: "'a Tree option \<Rightarrow> string \<Rightarrow> 'a \<Rightarrow> 'a Tree option \<times> error option" where
  "Insert t k v =
     (case t of
        None \<Rightarrow> (None, Some ErrTreeIsNil)
      | Some tr \<Rightarrow>
          (if k = [] then (Some tr, Some ErrKeyIsEmpty)
           else
             (case checkUrl k of
                Some err \<Rightarrow> (Some tr, Some err)
              | None \<Rightarrow>
                  (let paramInfos = getPathParams k;
                       nv = createNewNodeValue v paramInfos
                   in case root tr of
                        None \<Rightarrow> (Some (tr\<lparr>root := Some (createNewNode k (Some nv) [])\<rparr>), None)
                      | Some r \<Rightarrow>
                          (case insertRec r k nv of
                             (r', err) \<Rightarrow> (Some (tr\<lparr>root := Some r'\<rparr>), err))))))"

section \<open>Lookup\<close>

definition checkTree :: "'a Tree option \<Rightarrow> error option" where
  "checkTree t =
     (case t of
        None \<Rightarrow> Some ErrTreeIsNil
      | Some tr \<Rightarrow> (if root tr = None then Some ErrRootIsNil else None))"

fun findRec :: "'a Node \<Rightarrow> string \<Rightarrow> bool \<Rightarrow> 'a Node option"
  and findRec_children :: "'a Node list \<Rightarrow> string \<Rightarrow> bool \<Rightarrow> 'a Node option"
where
  "findRec (Node nkey nval chs) k isWildcard0 =
     (let isWildcard = (if curlyStart \<in> set nkey then True else isWildcard0);
          lcp = longestCommonPrefix nkey k
      in if lcp = 0 \<and> \<not> isWildcard then None
         else if \<not> isWildcard then
           (if k = nkey then Some (Node nkey nval chs)
            else if lcp < length nkey then None
            else findRec_children chs (drop lcp k) isWildcard)
         else
           (let nodeKeyRem = drop lcp nkey;
                searchKeyRem = drop lcp k
            in case getOffsets nodeKeyRem searchKeyRem True of
                 (offset1, offset2, isStillWildcard) \<Rightarrow>
                   (if length nodeKeyRem \<noteq> offset1 then None
                    else
                      (let newSearchKey = drop offset2 searchKeyRem
                       in if newSearchKey = [] then
                            (if IsLeaf (Node nkey nval chs) then Some (Node nkey nval chs) else None)
                          else findRec_children chs newSearchKey isStillWildcard))))"
| "findRec_children [] k isWildcard = None"
| "findRec_children (c # rest) k isWildcard =
     (case findRec c k isWildcard of
        Some found \<Rightarrow> Some found
      | None \<Rightarrow> findRec_children rest k isWildcard)"

definition Find :: "'a Tree option \<Rightarrow> string \<Rightarrow> 'a FoundNode option" where
  "Find t k =
     (if checkTree t \<noteq> None then None
      else if k = [] then None
      else
        (case t of
           None \<Rightarrow> None
         | Some tr \<Rightarrow>
             (case root tr of
                None \<Rightarrow> None
              | Some r \<Rightarrow>
                  (case findRec r k False of
                     None \<Rightarrow> None
                   | Some n \<Rightarrow>
                       (case nodeValue n of
                          None \<Rightarrow> None
                        | Some nv \<Rightarrow>
                            Some \<lparr>fvalue = val nv, fparams = matchParams (params nv) k\<rparr>)))))"

fun findLongestMatchRec :: "'a Node \<Rightarrow> string \<Rightarrow> 'a Node option"
  and findLongestMatchRec_children :: "'a Node list \<Rightarrow> string \<Rightarrow> 'a Node option"
where
  "findLongestMatchRec (Node nkey nval chs) k =
     (let lcp = longestCommonPrefix nkey k
      in if lcp = 0 then None
         else if lcp \<noteq> length nkey then None
         else
           (case findLongestMatchRec_children chs (drop lcp k) of
              Some node \<Rightarrow> Some node
            | None \<Rightarrow> (if \<not> IsLeaf (Node nkey nval chs) then None else Some (Node nkey nval chs))))"
| "findLongestMatchRec_children [] k = None"
| "findLongestMatchRec_children (ch # rest) k =
     (case findLongestMatchRec ch k of
        Some node \<Rightarrow> Some node
      | None \<Rightarrow> findLongestMatchRec_children rest k)"

definition FindLongestMatch :: "'a Tree option \<Rightarrow> string \<Rightarrow> 'a FoundNode option" where
  "FindLongestMatch t k =
     (if checkTree t \<noteq> None then None
      else if k = [] then None
      else
        (case t of
           None \<Rightarrow> None
         | Some tr \<Rightarrow>
             (case root tr of
                None \<Rightarrow> None
              | Some r \<Rightarrow>
                  (case findLongestMatchRec r k of
                     None \<Rightarrow> None
                   | Some n \<Rightarrow>
                       (case nodeValue n of
                          None \<Rightarrow> None
                        | Some nv \<Rightarrow> Some \<lparr>fvalue = val nv, fparams = Map.empty\<rparr>)))))"

section \<open>Traversals\<close>

fun getAllLeafRec :: "'a Node \<Rightarrow> 'a Node list" where
  "getAllLeafRec (Node nkey nval chs) =
     concat (map getAllLeafRec chs)
       @ (if IsLeaf (Node nkey nval chs) then [Node nkey nval chs] else [])"

definition GetAllLeaf :: "'a Tree option \<Rightarrow> 'a Node list option" where
  "GetAllLeaf t =
     (case t of
        None \<Rightarrow> None
      | Some tr \<Rightarrow> (case root tr of None \<Rightarrow> None | Some r \<Rightarrow> Some (getAllLeafRec r)))"

fun getByPredicateRec :: "'a Node \<Rightarrow> ('a Node \<Rightarrow> bool) \<Rightarrow> 'a Node option"
  and getByPredicateRec_children :: "'a Node list \<Rightarrow> ('a Node \<Rightarrow> bool) \<Rightarrow> 'a Node option"
where
  "getByPredicateRec (Node nkey nval chs) fn =
     (if fn (Node nkey nval chs) then Some (Node nkey nval chs)
      else getByPredicateRec_children chs fn)"
| "getByPredicateRec_children [] fn = None"
| "getByPredicateRec_children (ch # rest) fn =
     (case getByPredicateRec ch fn of
        Some m \<Rightarrow> Some m
      | None \<Rightarrow> getByPredicateRec_children rest fn)"

definition GetByPredicate :: "'a Tree option \<Rightarrow> ('a Node \<Rightarrow> bool) \<Rightarrow> 'a Node option" where
  "GetByPredicate t fn =
     (case t of
        None \<Rightarrow> None
      | Some tr \<Rightarrow> (case root tr of None \<Rightarrow> None | Some r \<Rightarrow> getByPredicateRec r fn))"

section \<open>Specification-side definitions\<close>

text \<open>
  The definitions of this section are not translations of source functions: they state,
  in the words of the specification, what the claims below compare the code with.
\<close>

text \<open>
  The brace scan of the key validator as the specification words it: scanning left to
  right, a \<open>{\<close> while inside a wildcard segment, a \<open>}\<close> while outside, a \<open>/\<close> while
  inside, or ending inside, make the key malformed.
\<close>

fun malformedWildcard_scan :: "bool \<Rightarrow> string \<Rightarrow> bool" where
  "malformedWildcard_scan inside [] = inside"
| "malformedWildcard_scan inside (c # cs) =
     (if c = curlyStart then (if inside then True else malformedWildcard_scan True cs)
      else if c = curlyEnd then (if inside then malformedWildcard_scan False cs else True)
      else if c = slash then (if inside then True else malformedWildcard_scan inside cs)
      else malformedWildcard_scan inside cs)"

text \<open>
  The tokens of a key that the extractor turns into parameters (a token of the
  \<open>/\<close>-split, with its index, that contains a \<open>{\<close> and has at least two bytes), and
  the descriptor it makes of such a token.
\<close>

definition isParamToken :: "nat \<times> string \<Rightarrow> bool" where
  "isParamToken tok = (curlyStart \<in> set (snd tok) \<and> 2 \<le> length (snd tok))"

definition paramOfToken :: "nat \<times> string \<Rightarrow> paramInfo" where
  "paramOfToken tok =
     \<lparr>pkey = drop 1 (take (length (snd tok) - 1) (snd tok)), pos = of_nat (fst tok)\<rparr>"

definition paramTokens :: "string \<Rightarrow> (nat \<times> string) list" where
  "paramTokens k = filter isParamToken (enumerate 0 (split_go k slash))"

text \<open>Two fragments share a common leading character.\<close>

fun sharesLead :: "string \<Rightarrow> string \<Rightarrow> bool" where
  "sharesLead (x # xs) (y # ys) = (x = y)"
| "sharesLead xs ys = False"

text \<open>No two fragments of a list of sibling fragments share a common leading character.\<close>

fun siblingsDisjoint :: "string list \<Rightarrow> bool" where
  "siblingsDisjoint [] = True"
| "siblingsDisjoint (k # ks) = ((\<forall>k' \<in> set ks. \<not> sharesLead k k') \<and> siblingsDisjoint ks)"

text \<open>The compression invariant: it holds for the children of every node of the tree.\<close>

fun compressed :: "'a Node \<Rightarrow> bool" where
  "compressed (Node nkey nval chs) =
     (siblingsDisjoint (map key chs) \<and> (\<forall>c \<in> set chs. compressed c))"

definition compressedTree :: "'a Tree \<Rightarrow> bool" where
  "compressedTree t = (case root t of None \<Rightarrow> True | Some r \<Rightarrow> compressed r)"

text \<open>Compression together with non-empty fragments, as every insertion keeps it.\<close>

fun wellFormed :: "'a Node \<Rightarrow> bool" where
  "wellFormed (Node nkey nval chs) =
     (nkey \<noteq> [] \<and> siblingsDisjoint (map key chs) \<and> (\<forall>c \<in> set chs. wellFormed c))"

text \<open>No fragment of the tree contains a \<open>{\<close>.\<close>

fun staticNode :: "'a Node \<Rightarrow> bool" where
  "staticNode (Node nkey nval chs) = (curlyStart \<notin> set nkey \<and> (\<forall>c \<in> set chs. staticNode c))"

text \<open>
  The stored keys below a node, each with its payload: the concatenations of the
  fragments from the node down to a node that carries a payload.
\<close>

fun entries :: "'a Node \<Rightarrow> (string \<times> 'a NodeValue) set" where
  "entries (Node nkey nval chs) =
     (case nval of None \<Rightarrow> {} | Some nv \<Rightarrow> {(nkey, nv)})
       \<union> (\<Union>c \<in> set chs. (\<lambda>(p, x). (nkey @ p, x)) ` entries c)"

text \<open>
  A sequence of insertions, each of which succeeds: the tree they end in, or \<open>None\<close>
  when one of them fails.
\<close>

fun insertAll :: "'a Tree \<Rightarrow> (string \<times> 'a) list \<Rightarrow> 'a Tree option" where
  "insertAll t [] = Some t"
| "insertAll t ((k, v) # rest) =
     (case Insert (Some t) k v of
        (Some t', None) \<Rightarrow> insertAll t' rest
      | (Some t', Some e) \<Rightarrow> None
      | (None, e) \<Rightarrow> None)"

text \<open>
  The nodes that a longest-prefix descent can reach from a node, with their depth below
  it: a node is entered only where the longest common prefix of its fragment and the
  remaining key is the whole fragment and is not empty.
\<close>

fun reached :: "'a Node \<Rightarrow> string \<Rightarrow> (nat \<times> 'a Node) list" where
  "reached (Node nkey nval chs) k =
     (let lcp = longestCommonPrefix nkey k
      in if lcp = 0 \<or> lcp \<noteq> length nkey then []
         else (0, Node nkey nval chs)
                # map (\<lambda>(d, m). (Suc d, m)) (concat (map (\<lambda>c. reached c (drop lcp k)) chs)))"

text \<open>The same notions for a tree, through its root.\<close>

definition treeEntries :: "'a Tree \<Rightarrow> (string \<times> 'a NodeValue) set" where
  "treeEntries t = (case root t of None \<Rightarrow> {} | Some r \<Rightarrow> entries r)"

definition wellFormedTree :: "'a Tree \<Rightarrow> bool" where
  "wellFormedTree t = (case root t of None \<Rightarrow> True | Some r \<Rightarrow> wellFormed r)"

definition staticTree :: "'a Tree \<Rightarrow> bool" where
  "staticTree t = (case root t of None \<Rightarrow> True | Some r \<Rightarrow> staticNode r)"

text \<open>
  A stored wildcard-free key is the first thing a lookup finds: every node on its path
  has a wildcard-free fragment, the node at its end carries the payload, and below each
  node of the path every child registered before the next node of the path has a
  wildcard-free fragment that shares nothing with the remaining key.
\<close>

fun firstFound :: "'a Node \<Rightarrow> string \<Rightarrow> 'a NodeValue \<Rightarrow> bool"
  and firstFoundIn :: "'a Node list \<Rightarrow> string \<Rightarrow> 'a NodeValue \<Rightarrow> bool"
where
  "firstFound (Node nkey nval chs) k x =
     (curlyStart \<notin> set nkey \<and> nkey \<noteq> [] \<and> prefix nkey k
      \<and> (if k = nkey then nval = Some x else firstFoundIn chs (drop (length nkey) k) x))"
| "firstFoundIn [] p x = False"
| "firstFoundIn (c # rest) p x =
     (if longestCommonPrefix (key c) p = 0
      then curlyStart \<notin> set (key c) \<and> firstFoundIn rest p x
      else firstFound c p x)"

definition firstFoundTree :: "'a Tree \<Rightarrow> string \<Rightarrow> 'a NodeValue \<Rightarrow> bool" where
  "firstFoundTree t k x = (case root t of None \<Rightarrow> False | Some r \<Rightarrow> firstFound r k x)"

section \<open>Longest common prefix: the loop and its structural reading\<close>

lemma lcp_loop_Cons:
  "lcp_loop (x # xs) (y # ys) (Suc m) (Suc c) = Suc (lcp_loop xs ys m c)"
proof (induction xs ys m c rule: lcp_loop.induct)
  case (1 str1 str2 maxVal counter)
  show ?case
  proof (cases "counter < maxVal \<and> str1 ! counter = str2 ! counter")
    case True
    then show ?thesis
      using "1.IH" lcp_loop.simps [of "x # str1" "y # str2" "Suc maxVal" "Suc counter"]
        lcp_loop.simps [of str1 str2 maxVal counter]
      by simp
  next
    case False
    then show ?thesis
      using lcp_loop.simps [of "x # str1" "y # str2" "Suc maxVal" "Suc counter"]
        lcp_loop.simps [of str1 str2 maxVal counter]
      by auto
  qed
qed

lemma longestCommonPrefix_Nil [simp]:
  "longestCommonPrefix [] ys = 0" "longestCommonPrefix xs [] = 0"
  by (simp_all add: longestCommonPrefix_def min_go_def lcp_loop.simps)

lemma longestCommonPrefix_Cons [simp]:
  "longestCommonPrefix (x # xs) (y # ys) = (if x = y then Suc (longestCommonPrefix xs ys) else 0)"
proof -
  have m: "min_go (Suc a) (Suc b) = Suc (min_go a b)" for a b
    by (simp add: min_go_def)
  show ?thesis
    using lcp_loop.simps [of "x # xs" "y # ys" "Suc (min_go (length xs) (length ys))" 0]
    by (simp add: longestCommonPrefix_def m lcp_loop_Cons)
qed

lemma longestCommonPrefix_eq:
  "longestCommonPrefix xs ys = length (longest_common_prefix xs ys)"
  by (induction xs ys rule: longest_common_prefix.induct) simp_all

text \<open>The equations that unfold the operations on concrete keys.\<close>

lemmas eval_simps = Insert_def Find_def New_def checkUrl_def checkPathParams_def
  checkPathParams_loop.simps getPathParams_def createNewNode_def createNewNodeValue_def
  checkTree_def getOffsets_def getOffsets_loop.simps matchParams_def IsLeaf_def
  slash_def curlyStart_def curlyEnd_def addToChildren_def FindLongestMatch_def

section \<open>The slices of the scanner stay in range\<close>

text \<open>
  The source slices the search key at the scanner's second offset
  (\<open>searchKey[j:]\<close> inside the scanner, \<open>searchKeyRem[offset2:]\<close> in \<open>findRec\<close>); a
  slice beyond the length would panic. Both offsets stay within their strings, so the
  model's \<open>drop\<close> never stands for a panic.
\<close>

lemma indexRune_range:
  "indexRune s c = - 1 \<or> (0 \<le> indexRune s c \<and> indexRune s c < int (length s))"
  by (induction s) (auto simp: Let_def)

lemma getOffsets_loop_in_range:
  "i \<le> length storedKey \<Longrightarrow> j \<le> length searchKey \<Longrightarrow>
   (case getOffsets_loop storedKey searchKey i j isWildcard of
      (i', j', w') \<Rightarrow> i' \<le> length storedKey \<and> j' \<le> length searchKey)"
proof (induction storedKey searchKey i j isWildcard rule: getOffsets_loop.induct)
  case (1 storedKey searchKey i j isWildcard)
  let ?rem = "drop j searchKey"
  let ?idx = "indexRune ?rem slash"
  have step: "j + (if ?idx = - 1 then length ?rem else nat ?idx) \<le> length searchKey"
    using indexRune_range [of ?rem slash] "1.prems"(2) by auto
  show ?case
    using "1.prems" "1.IH" step
    by (subst getOffsets_loop.simps) (auto simp: Let_def)
qed

lemma getOffsets_in_range:
  "getOffsets storedKey searchKey isWildcard = (offset1, offset2, isStillWildcard) \<Longrightarrow>
   offset1 \<le> length storedKey \<and> offset2 \<le> length searchKey"
  using getOffsets_loop_in_range [of 0 storedKey 0 searchKey isWildcard]
  by (simp add: getOffsets_def)

section \<open>Concrete scenarios\<close>

text \<open>
  Claim C7. The offset scanner on the two unit cases of the specification: in wildcard
  mode the fragment \<open>foo\<close> is consumed whole against \<open>bar\<close> without consuming any
  search character and the scan stays in wildcard mode, so the result is \<open>(3, 0, true)\<close>;
  and \<open>/foo/{id}\<close> against \<open>/foo/5/6\<close> outside wildcard mode gives \<open>(9, 6, false)\<close>.
\<close>

theorem getOffsets_unit_cases:
  "getOffsets ''foo'' ''bar'' True = (3, 0, True)
   \<and> getOffsets ''/foo/{id}'' ''/foo/5/6'' False = (9, 6, False)"
  by (simp add: eval_simps)

text \<open>
  Claim C3. Inserting the single key \<open>/foo/{id}/baz\<close> with value \<open>v\<close> into the empty
  tree succeeds, and \<open>Find\<close> of \<open>/foo/5/baz\<close> then returns \<open>v\<close> with the parameter map
  that binds \<open>id\<close> to \<open>5\<close> and nothing else.
\<close>

theorem find_single_wildcard:
  "(case Insert (Some New) ''/foo/{id}/baz'' v of
      (t1, e1) \<Rightarrow>
        e1 = None
        \<and> Find t1 ''/foo/5/baz'' = Some \<lparr>fvalue = v, fparams = [''id'' \<mapsto> ''5'']\<rparr>)"
  by (simp add: eval_simps)

text \<open>
  Claim C2. Inserting \<open>/api/{resource}/get/{id}\<close>, \<open>/api/{resource}/delete/{id}\<close> and
  \<open>/api/{resource}/update/{id}\<close>, in that order and each with its own value, into the
  empty tree succeeds three times; afterwards \<open>Find\<close> of \<open>/api/products/delete/1\<close>
  returns the value of the \<open>delete\<close> route with \<open>resource\<close> bound to \<open>products\<close> and
  \<open>id\<close> bound to \<open>1\<close>, and \<open>Find\<close> of \<open>/api/products/insert/1\<close> returns absence.
\<close>

theorem find_multi_param:
  "(case Insert (Some New) ''/api/{resource}/get/{id}'' v1 of
      (t1, e1) \<Rightarrow>
    case Insert t1 ''/api/{resource}/delete/{id}'' v2 of
      (t2, e2) \<Rightarrow>
    case Insert t2 ''/api/{resource}/update/{id}'' v3 of
      (t3, e3) \<Rightarrow>
        e1 = None \<and> e2 = None \<and> e3 = None
        \<and> Find t3 ''/api/products/delete/1''
            = Some \<lparr>fvalue = v2, fparams = [''resource'' \<mapsto> ''products'', ''id'' \<mapsto> ''1'']\<rparr>
        \<and> Find t3 ''/api/products/insert/1'' = None)"
  by (simp add: eval_simps)

section \<open>The key validator against the specification\<close>

lemma special_chars_distinct [simp]:
  "curlyStart \<noteq> curlyEnd" "curlyEnd \<noteq> curlyStart" "curlyStart \<noteq> slash" "slash \<noteq> curlyStart"
  "curlyEnd \<noteq> slash" "slash \<noteq> curlyEnd"
  by (simp_all add: slash_def curlyStart_def curlyEnd_def)

lemma checkPathParams_loop_scan:
  "counter \<le> length url \<Longrightarrow>
   checkPathParams_loop url inside counter =
     (if malformedWildcard_scan inside (drop counter url) then Some ErrBadPathParamSyntax else None)"
proof (induction url inside counter rule: checkPathParams_loop.induct)
  case (1 url insideParam counter)
  show ?case
  proof (cases "counter < length url")
    case False
    with "1.prems" show ?thesis
      by (subst checkPathParams_loop.simps) simp
  next
    case True
    then have d: "drop counter url = url ! counter # drop (Suc counter) url"
      by (simp add: Cons_nth_drop_Suc)
    from True have le: "counter + 1 \<le> length url" by simp
    show ?thesis
      using True "1.IH" [OF True _ _ refl _ refl le]
      by (subst checkPathParams_loop.simps) (auto simp: d Let_def)
  qed
qed

lemma scan_no_braces:
  "curlyStart \<notin> set cs \<Longrightarrow> curlyEnd \<notin> set cs \<Longrightarrow> \<not> malformedWildcard_scan False cs"
  by (induction cs) auto

lemma checkPathParams_scan:
  "checkPathParams url =
     (if malformedWildcard_scan False url then Some ErrBadPathParamSyntax else None)"
  using checkPathParams_loop_scan [of 0 url False] scan_no_braces [of url]
  by (auto simp: checkPathParams_def)

lemma insert_errors:
  "snd (insertRec n k v) \<in> {None, Some ErrNoCommonPrefix, Some ErrKeyIsAlreadyStored}"
  "snd (iterateInsert ns k v) \<in> {None, Some ErrNoCommonPrefix, Some ErrKeyIsAlreadyStored}"
  by (induction n k v and ns k v rule: insertRec_iterateInsert.induct)
     (auto simp: Let_def split: prod.splits option.splits)

text \<open>
  The validator of version v1.0.2 does what claim C5 says. On a non-nil tree, \<open>Insert\<close>
  fails with the empty-key error exactly when
  the key is empty; otherwise with the missing-leading-slash error exactly when the
  first byte is not \<open>/\<close>; otherwise with the trailing-slash error exactly when the key
  ends with \<open>/\<close> and is not the key \<open>/\<close> itself; otherwise with the bad-path-param
  error exactly when the left-to-right brace scan of the specification finds the key
  malformed; and a key that passes all four checks passes \<open>checkUrl\<close>.
\<close>

theorem insert_validation_errors:
  "(snd (Insert (Some t) k v) = Some ErrKeyIsEmpty \<longleftrightarrow> k = [])
   \<and> (snd (Insert (Some t) k v) = Some ErrMissingSlashPrefix \<longleftrightarrow> k \<noteq> [] \<and> hd k \<noteq> slash)
   \<and> (snd (Insert (Some t) k v) = Some ErrPresentSlashSuffix \<longleftrightarrow>
        k \<noteq> [] \<and> hd k = slash \<and> last k = slash \<and> k \<noteq> [slash])
   \<and> (snd (Insert (Some t) k v) = Some ErrBadPathParamSyntax \<longleftrightarrow>
        k \<noteq> [] \<and> hd k = slash \<and> \<not> (last k = slash \<and> k \<noteq> [slash])
        \<and> malformedWildcard_scan False k)
   \<and> (k \<noteq> [] \<and> hd k = slash \<and> \<not> (last k = slash \<and> k \<noteq> [slash])
        \<and> \<not> malformedWildcard_scan False k \<longrightarrow> checkUrl k = None)"
proof (cases "k = []")
  case True
  then show ?thesis by (simp add: Insert_def)
next
  case False
  then have hd: "k ! 0 = hd k" and last: "k ! (length k - Suc 0) = last k"
    by (simp_all add: hd_conv_nth last_conv_nth)
  have chk: "checkUrl k =
      (if hd k \<noteq> slash then Some ErrMissingSlashPrefix
       else if last k = slash \<and> k \<noteq> [slash] then Some ErrPresentSlashSuffix
       else if malformedWildcard_scan False k then Some ErrBadPathParamSyntax else None)"
    by (simp add: checkUrl_def hd last checkPathParams_scan)
  have rec: "snd (insertRec r k nv) \<in> {None, Some ErrNoCommonPrefix, Some ErrKeyIsAlreadyStored}"
    for r :: "'a Node" and nv
    by (rule insert_errors(1))
  have ins: "snd (Insert (Some t) k v) =
      (case checkUrl k of
         Some err \<Rightarrow> Some err
       | None \<Rightarrow>
           (case root t of
              None \<Rightarrow> None
            | Some r \<Rightarrow> snd (insertRec r k (createNewNodeValue v (getPathParams k)))))"
    using False by (simp add: Insert_def Let_def split: option.splits prod.splits)
  show ?thesis
  proof (cases "root t")
    case None
    then show ?thesis using False by (simp add: ins chk)
  next
    case (Some r)
    then show ?thesis
      using False rec [of r "createNewNodeValue v (getPathParams k)"]
      by (auto simp: ins chk)
  qed
qed

theorem insert_validation_errors_witness:
  "checkUrl ''/foo/{id}'' = None
   \<and> snd (Insert (Some (New :: nat Tree)) ''/foo/{id'' 0) = Some ErrBadPathParamSyntax
   \<and> snd (Insert (Some (New :: nat Tree)) ''/foo/'' 0) = Some ErrPresentSlashSuffix
   \<and> snd (Insert (Some (New :: nat Tree)) ''foo'' 0) = Some ErrMissingSlashPrefix
   \<and> snd (Insert (Some (New :: nat Tree)) [] 0) = Some ErrKeyIsEmpty
   \<and> checkUrl ''/'' = None"
  using insert_validation_errors [of "New :: nat Tree" "''/foo/{id}''" 0]
    insert_validation_errors [of "New :: nat Tree" "''/foo/{id''" 0]
    insert_validation_errors [of "New :: nat Tree" "''/foo/''" 0]
    insert_validation_errors [of "New :: nat Tree" "''foo''" 0]
    insert_validation_errors [of "New :: nat Tree" "[]" 0]
    insert_validation_errors [of "New :: nat Tree" "''/''" 0]
  by (simp add: slash_def curlyStart_def curlyEnd_def)

text \<open>
  Claim C5 on the older \<open>tree.go\<close>. The claim says that the trailing-slash error is
  given exactly when the key ends with \<open>/\<close> and is not the key \<open>/\<close> itself, and that
  a key passing the four checks passes validation. The \<open>checkUrl\<close> of the older
  \<open>tree.go\<close> misses the exception: on the key \<open>/\<close> it returns the trailing-slash error,
  and so does its \<open>Insert\<close>, where the validator of version v1.0.2 accepts the key and
  \<open>Insert\<close> stores it. On every other key the two validators agree.
\<close>

theorem tree_go_rejects_root_key:
  "tree_checkUrl ''/'' = Some ErrPresentSlashSuffix
   \<and> tree_Insert_validate (Some tr) ''/'' = Some ErrPresentSlashSuffix
   \<and> checkUrl ''/'' = None
   \<and> snd (Insert (Some New) ''/'' v) = None
   \<and> tree_checkUrl k = (if k = [slash] then Some ErrPresentSlashSuffix else checkUrl k)"
  by (auto simp: tree_checkUrl_def tree_Insert_validate_def checkUrl_def checkPathParams_def
      Insert_def New_def slash_def curlyStart_def curlyEnd_def getPathParams_def Let_def)

section \<open>The path parameter extractor\<close>

lemma getPathParams_loop_char:
  "counter + length (filter isParamToken rest) \<le> length ps \<Longrightarrow>
   getPathParams_loop rest ps counter =
     take counter ps @ map paramOfToken (filter isParamToken rest)
       @ drop (counter + length (filter isParamToken rest)) ps"
proof (induction rest arbitrary: ps counter)
  case Nil
  then show ?case by simp
next
  case (Cons tok rest)
  obtain i el where tok: "tok = (i, el)" by (cases tok)
  show ?case
  proof (cases "isParamToken tok")
    case False
    then show ?thesis
      using Cons.IH [of counter ps] Cons.prems
      by (auto simp: tok isParamToken_def Let_def)
  next
    case True
    let ?x = "\<lparr>pkey = drop 1 (take (length el - 1) el), pos = of_nat i\<rparr>"
    from True Cons.prems have lt: "counter < length ps" by simp
    from True Cons.prems
    have le: "(counter + 1) + length (filter isParamToken rest) \<le> length (ps[counter := ?x])"
      by simp
    have t: "take (counter + 1) (ps[counter := ?x]) = take counter ps @ [?x]"
      using lt by (simp add: take_Suc_conv_app_nth)
    have d: "drop (counter + 1 + n) (ps[counter := ?x]) = drop (counter + 1 + n) ps" for n
      by simp
    show ?thesis
      using True Cons.IH [OF le] t d
      by (simp add: tok isParamToken_def paramOfToken_def Let_def)
  qed
qed

lemma split_go_nonempty [simp]: "split_go k sep \<noteq> []"
  by (induction k) (auto split: list.splits)

lemma count_list_split_go:
  "c \<noteq> sep \<Longrightarrow> count_list k c = sum_list (map (\<lambda>el. count_list el c) (split_go k sep))"
proof (induction k)
  case Nil
  then show ?case by simp
next
  case (Cons x xs)
  then show ?case
    by (cases "split_go xs sep") auto
qed

lemma length_filter_tokens_le:
  "length (filter isParamToken (enumerate n xs)) \<le> sum_list (map (\<lambda>el. count_list el curlyStart) xs)"
proof (induction xs arbitrary: n)
  case Nil
  then show ?case by simp
next
  case (Cons el xs)
  have "curlyStart \<in> set el \<Longrightarrow> 1 \<le> count_list el curlyStart"
    by (metis count_list_0_iff less_one not_le)
  with Cons [of "Suc n"] show ?case
    by (auto simp: isParamToken_def intro: le_SucI trans_le_add2)
qed

lemma paramTokens_le: "length (paramTokens k) \<le> count_list k curlyStart"
  using length_filter_tokens_le [of 0 "split_go k slash"] count_list_split_go [of curlyStart slash k]
  by (simp add: paramTokens_def)

lemma getPathParams_char:
  "getPathParams k =
     map paramOfToken (paramTokens k)
       @ replicate (count_list k curlyStart - length (paramTokens k)) \<lparr>pkey = [], pos = 0\<rparr>"
  using getPathParams_loop_char [of 0 "enumerate 0 (split_go k slash)"
      "replicate (count_list k curlyStart) \<lparr>pkey = [], pos = 0\<rparr>"] paramTokens_le [of k]
  by (simp add: getPathParams_def paramTokens_def Let_def)

lemma paramTokens_static: "curlyStart \<notin> set k \<Longrightarrow> paramTokens k = []"
  using paramTokens_le [of k] by (simp add: count_list_0_iff)

lemma getPathParams_static: "curlyStart \<notin> set k \<Longrightarrow> getPathParams k = []"
  by (simp add: getPathParams_char paramTokens_static count_list_0_iff)

lemma validated_tokens:
  "\<not> malformedWildcard_scan inside k \<Longrightarrow>
   (inside \<longrightarrow> curlyEnd \<in> set (hd (split_go k slash)))
   \<and> (\<forall>el \<in> set (split_go k slash). curlyStart \<in> set el \<longrightarrow> curlyEnd \<in> set el)"
proof (induction k arbitrary: inside)
  case Nil
  then show ?case by simp
next
  case (Cons c cs)
  obtain w ws where sp: "split_go cs slash = w # ws"
    by (cases "split_go cs slash") simp_all
  consider "c = curlyStart" | "c = curlyEnd" | "c = slash"
    | "c \<noteq> curlyStart" "c \<noteq> curlyEnd" "c \<noteq> slash"
    by blast
  then show ?case
  proof cases
    case 1
    with Cons.prems have "\<not> inside" "\<not> malformedWildcard_scan True cs"
      by (auto split: if_splits)
    with Cons.IH [of True] 1 show ?thesis by (simp add: sp)
  next
    case 2
    with Cons.prems have "inside" "\<not> malformedWildcard_scan False cs"
      by (auto split: if_splits)
    with Cons.IH [of False] 2 show ?thesis by (simp add: sp)
  next
    case 3
    with Cons.prems have "\<not> inside" "\<not> malformedWildcard_scan False cs"
      by (auto split: if_splits)
    with Cons.IH [of False] 3 show ?thesis by (simp add: sp)
  next
    case 4
    with Cons.prems have "\<not> malformedWildcard_scan inside cs"
      by (auto split: if_splits)
    with Cons.IH [of inside] 4 show ?thesis by (auto simp: sp)
  qed
qed

lemma two_bytes: "a \<in> set el \<Longrightarrow> b \<in> set el \<Longrightarrow> a \<noteq> b \<Longrightarrow> 2 \<le> length el"
  by (cases el; cases "tl el") auto

lemma validated_isParamToken:
  assumes "k \<noteq> []" "checkUrl k = None" "tok \<in> set (enumerate n (split_go k slash))"
  shows "isParamToken tok \<longleftrightarrow> curlyStart \<in> set (snd tok)"
proof -
  from assms(1,2) have "\<not> malformedWildcard_scan False k"
    by (auto simp: checkUrl_def checkPathParams_scan split: if_splits)
  from validated_tokens [OF this] assms(3)
  have "curlyStart \<in> set (snd tok) \<Longrightarrow> curlyEnd \<in> set (snd tok)"
    by (cases tok) (auto simp: in_set_enumerate_eq)
  then show ?thesis
    using two_bytes [of curlyStart "snd tok" curlyEnd] by (auto simp: isParamToken_def)
qed

lemma sum_count_le_one:
  "\<forall>el \<in> set xs. count_list el c \<le> 1 \<Longrightarrow>
   sum_list (map (\<lambda>el. count_list el c) xs) = length (filter (\<lambda>el. c \<in> set el) xs)"
proof (induction xs)
  case Nil
  then show ?case by simp
next
  case (Cons el xs)
  then have le: "count_list el c \<le> 1" by simp
  have nz: "c \<in> set el \<Longrightarrow> count_list el c \<noteq> 0"
    by (simp add: count_list_0_iff)
  have z: "c \<notin> set el \<Longrightarrow> count_list el c = 0"
    by (simp add: count_list_0_iff)
  have "count_list el c = (if c \<in> set el then 1 else 0)"
  proof (cases "c \<in> set el")
    case True
    with nz have "count_list el c \<noteq> 0" by blast
    with le have "count_list el c = 1" by linarith
    with True show ?thesis by simp
  next
    case False
    with z show ?thesis by simp
  qed
  with Cons show ?case by simp
qed

lemma length_filter_enumerate:
  "length (filter (\<lambda>tok. P (snd tok)) (enumerate n xs)) = length (filter P xs)"
  by (induction xs arbitrary: n) simp_all

lemma getPathParams_validated:
  assumes "k \<noteq> []" "checkUrl k = None"
    and one: "\<forall>el \<in> set (split_go k slash). count_list el curlyStart \<le> 1"
  shows "getPathParams k =
      map paramOfToken (filter (\<lambda>tok. curlyStart \<in> set (snd tok)) (enumerate 0 (split_go k slash)))"
proof -
  have pt: "paramTokens k = filter (\<lambda>tok. curlyStart \<in> set (snd tok)) (enumerate 0 (split_go k slash))"
    unfolding paramTokens_def
    by (rule filter_cong [OF refl]) (rule validated_isParamToken [OF assms(1,2)])
  have "count_list k curlyStart = length (paramTokens k)"
    using count_list_split_go [of curlyStart slash k] sum_count_le_one [OF one]
      length_filter_enumerate [of "\<lambda>el. curlyStart \<in> set el" 0 "split_go k slash"]
    by (simp add: pt)
  then show ?thesis
    by (simp add: getPathParams_char pt)
qed

text \<open>
  Claim C8, as stated, fails: the validated key \<open>/{}\<close> has a bare \<open>{}\<close> token, and
  the extractor returns a descriptor for it, with the empty name and position 1. And
  the validated key \<open>/{a}{b}\<close> has one token with two \<open>{\<close>, for which the extractor
  returns two descriptors, the second one zero-valued.
\<close>

theorem getPathParams_bare_braces:
  "checkUrl ''/{}'' = None \<and> getPathParams ''/{}'' = [\<lparr>pkey = [], pos = 1\<rparr>]
   \<and> checkUrl ''/{a}{b}'' = None
   \<and> getPathParams ''/{a}{b}'' = [\<lparr>pkey = ''a}{b'', pos = 1\<rparr>, \<lparr>pkey = [], pos = 0\<rparr>]"
  by (simp add: eval_simps)

text \<open>
  Claim C8, amended. For every key the extractor returns, in order, one descriptor per
  \<open>/\<close>-separated token that contains a \<open>{\<close> and has at least two bytes, followed by one
  zero-valued descriptor for every further \<open>{\<close> of the key. For a validated key whose
  tokens contain at most one \<open>{\<close> each, this is exactly one descriptor per token that
  contains a \<open>{\<close>, and no padding. The name is the token without its first and its
  last byte (so a bare \<open>{}\<close> yields a descriptor with the empty name), the position is
  the zero-based index of the token in the split, reduced modulo 256. A key without
  \<open>{\<close> yields the empty sequence.
\<close>

theorem getPathParams_tokens:
  "getPathParams k =
     map paramOfToken (paramTokens k)
       @ replicate (count_list k curlyStart - length (paramTokens k)) \<lparr>pkey = [], pos = 0\<rparr>
   \<and> (k \<noteq> [] \<and> checkUrl k = None
        \<and> (\<forall>el \<in> set (split_go k slash). count_list el curlyStart \<le> 1) \<longrightarrow>
      getPathParams k =
        map paramOfToken
          (filter (\<lambda>tok. curlyStart \<in> set (snd tok)) (enumerate 0 (split_go k slash))))
   \<and> (curlyStart \<notin> set k \<longrightarrow> getPathParams k = [])
   \<and> pkey (paramOfToken (i, el)) = drop 1 (take (length el - 1) el)
   \<and> unat (pos (paramOfToken (i, el))) = i mod 256"
  using getPathParams_char [of k] getPathParams_validated [of k] getPathParams_static [of k]
  by (simp add: paramOfToken_def unat_of_nat)

theorem getPathParams_tokens_witness:
  "getPathParams ''/foo/{bar}/baz/{}'' = [\<lparr>pkey = ''bar'', pos = 2\<rparr>, \<lparr>pkey = [], pos = 4\<rparr>]
   \<and> getPathParams ''/foo/bar'' = []
   \<and> getPathParams ''/{a}{b}'' = [\<lparr>pkey = ''a}{b'', pos = 1\<rparr>, \<lparr>pkey = [], pos = 0\<rparr>]"
  using getPathParams_tokens [of "''/foo/{bar}/baz/{}''" 0 "[]"]
    getPathParams_tokens [of "''/foo/bar''" 0 "[]"]
    getPathParams_tokens [of "''/{a}{b}''" 0 "[]"]
  by (simp add: eval_simps paramOfToken_def paramTokens_def isParamToken_def)

section \<open>Facts about the longest common prefix\<close>

lemma lcp_le: "longestCommonPrefix a b \<le> length a" "longestCommonPrefix a b \<le> length b"
  by (induction a b rule: longest_common_prefix.induct) simp_all

lemma lcp_take: "take (longestCommonPrefix a b) a = take (longestCommonPrefix a b) b"
  by (induction a b rule: longest_common_prefix.induct) simp_all

lemma lcp_zero_iff: "longestCommonPrefix a b = 0 \<longleftrightarrow> \<not> sharesLead a b"
  by (cases a; cases b) simp_all

lemma lcp_full_iff: "longestCommonPrefix a b = length a \<longleftrightarrow> prefix a b"
  by (induction a b rule: longest_common_prefix.induct) auto

lemma lcp_refl [simp]: "longestCommonPrefix a a = length a"
  by (simp add: lcp_full_iff)

lemma lcp_append [simp]: "longestCommonPrefix a (a @ p) = length a"
  by (simp add: lcp_full_iff)

lemma lcp_maximal:
  "\<not> sharesLead (drop (longestCommonPrefix a b) a) (drop (longestCommonPrefix a b) b)"
  by (induction a b rule: longest_common_prefix.induct) simp_all

lemma sharesLead_trans: "sharesLead a p \<Longrightarrow> sharesLead b p \<Longrightarrow> sharesLead a b"
  by (cases a; cases b; cases p) simp_all

lemma sharesLead_sym: "sharesLead a b \<longleftrightarrow> sharesLead b a"
  by (cases a; cases b) auto

lemma sharesLead_prefix: "a \<noteq> [] \<Longrightarrow> prefix a p \<Longrightarrow> sharesLead a p"
  by (cases a; cases p) auto

lemma sharesLead_take: "0 < n \<Longrightarrow> sharesLead (take n a) b \<longleftrightarrow> sharesLead a b"
  by (cases a; cases b; cases n) simp_all

text \<open>The two sibling predicates, read through heads and positions.\<close>

lemma sharesLead_iff: "sharesLead a b \<longleftrightarrow> a \<noteq> [] \<and> b \<noteq> [] \<and> hd a = hd b"
  by (cases a; cases b) simp_all

lemma siblingsDisjoint_iff_nth:
  "siblingsDisjoint ks \<longleftrightarrow>
     (\<forall>i < length ks. \<forall>j < length ks. i \<noteq> j \<longrightarrow> \<not> sharesLead (ks ! i) (ks ! j))"
proof (induction ks)
  case Nil
  then show ?case by simp
next
  case (Cons k ks)
  show ?case
  proof
    assume l: "siblingsDisjoint (k # ks)"
    show "\<forall>i < length (k # ks). \<forall>j < length (k # ks). i \<noteq> j \<longrightarrow>
            \<not> sharesLead ((k # ks) ! i) ((k # ks) ! j)"
    proof (intro allI impI)
      fix i j assume "i < length (k # ks)" "j < length (k # ks)" "i \<noteq> j"
      with l Cons.IH show "\<not> sharesLead ((k # ks) ! i) ((k # ks) ! j)"
        by (cases i; cases j) (auto simp: sharesLead_sym)
    qed
  next
    assume r: "\<forall>i < length (k # ks). \<forall>j < length (k # ks). i \<noteq> j \<longrightarrow>
            \<not> sharesLead ((k # ks) ! i) ((k # ks) ! j)"
    have "\<not> sharesLead k k'" if "k' \<in> set ks" for k'
    proof -
      from that obtain j where "j < length ks" "ks ! j = k'" by (auto simp: in_set_conv_nth)
      with r [rule_format, of 0 "Suc j"] show ?thesis by simp
    qed
    moreover have "\<forall>i < length ks. \<forall>j < length ks. i \<noteq> j \<longrightarrow> \<not> sharesLead (ks ! i) (ks ! j)"
    proof (intro allI impI)
      fix i j assume "i < length ks" "j < length ks" "i \<noteq> j"
      with r [rule_format, of "Suc i" "Suc j"] show "\<not> sharesLead (ks ! i) (ks ! j)" by simp
    qed
    ultimately show "siblingsDisjoint (k # ks)"
      using Cons.IH by simp
  qed
qed

section \<open>The cases of insertRec\<close>

lemma insertRec_nocommon:
  "longestCommonPrefix nkey k = 0 \<Longrightarrow>
   insertRec (Node nkey nval chs) k v = (Node nkey nval chs, Some ErrNoCommonPrefix)"
  by simp

lemma insertRec_exact:
  "0 < longestCommonPrefix nkey k \<Longrightarrow> longestCommonPrefix nkey k = length nkey \<Longrightarrow>
   length k = length nkey \<Longrightarrow>
   insertRec (Node nkey nval chs) k v =
     (if nval \<noteq> None then (Node nkey nval chs, Some ErrKeyIsAlreadyStored)
      else (Node nkey (Some v) chs, None))"
  by (simp add: IsLeaf_def)

lemma insertRec_split:
  "0 < longestCommonPrefix nkey k \<Longrightarrow> longestCommonPrefix nkey k < length nkey \<Longrightarrow>
   insertRec (Node nkey nval chs) k v =
     (if length k = longestCommonPrefix nkey k
      then (Node (take (longestCommonPrefix nkey k) nkey) (Some v)
              [Node (drop (longestCommonPrefix nkey k) nkey) nval chs], None)
      else (Node (take (longestCommonPrefix nkey k) nkey) None
              [Node (drop (longestCommonPrefix nkey k) nkey) nval chs,
               Node (drop (longestCommonPrefix nkey k) k) (Some v) []], None))"
  using lcp_le(2) [of nkey k]
  by (auto simp: Let_def createNewNode_def)

lemma insertRec_descend:
  "0 < longestCommonPrefix nkey k \<Longrightarrow> longestCommonPrefix nkey k = length nkey \<Longrightarrow>
   length k \<noteq> length nkey \<Longrightarrow>
   insertRec (Node nkey nval chs) k v =
     (case iterateInsert chs (drop (length nkey) k) v of
        (chs', None) \<Rightarrow> (Node nkey nval chs', None)
      | (chs', Some err) \<Rightarrow>
          (if err \<noteq> ErrNoCommonPrefix then (Node nkey nval chs', Some err)
           else (Node nkey nval (chs' @ [Node (drop (length nkey) k) (Some v) []]), None)))"
  by (simp add: Let_def createNewNode_def addToChildren_def split: prod.splits option.splits)

lemmas insertRec_cases = insertRec_nocommon insertRec_exact insertRec_split insertRec_descend

section \<open>A failing insertion leaves the node as it was\<close>

lemma insert_failure_unchanged:
  "insertRec n k v = (n', Some e) \<Longrightarrow> n' = n"
  "iterateInsert ns k v = (ns', Some e) \<Longrightarrow> ns' = ns"
proof (induction n k v and ns k v arbitrary: n' e and ns' e rule: insertRec_iterateInsert.induct)
  case (1 nkey nval chs k v)
  then show ?case
    by (auto simp: Let_def split: if_splits prod.splits option.splits)
next
  case (2 k v)
  then show ?case by simp
next
  case (3 ch rest k v)
  then show ?case
    by (auto split: prod.splits option.splits if_splits)
qed

lemma insertRec_nocommon_iff:
  "snd (insertRec n k v) = Some ErrNoCommonPrefix \<longleftrightarrow> longestCommonPrefix (key n) k = 0"
  by (cases n) (auto simp: Let_def split: prod.splits option.splits)

declare insertRec.simps [simp del]

section \<open>The loop over the children\<close>

lemma insertRec_nocommon':
  "longestCommonPrefix (key c) k = 0 \<Longrightarrow> insertRec c k v = (c, Some ErrNoCommonPrefix)"
  by (cases c) (simp add: insertRec_nocommon)

lemma iterateInsert_none:
  "\<forall>c \<in> set chs. longestCommonPrefix (key c) k = 0 \<Longrightarrow>
   iterateInsert chs k v = (chs, Some ErrNoCommonPrefix)"
  by (induction chs) (simp_all add: insertRec_nocommon')

lemma iterateInsert_at:
  assumes "\<forall>c \<in> set pre. longestCommonPrefix (key c) k = 0"
    and "0 < longestCommonPrefix (key c0) k"
  shows "iterateInsert (pre @ c0 # post) k v =
           (pre @ fst (insertRec c0 k v) # post, snd (insertRec c0 k v))"
  using assms(1)
proof (induction pre)
  case Nil
  from assms(2) have "snd (insertRec c0 k v) \<noteq> Some ErrNoCommonPrefix"
    by (simp add: insertRec_nocommon_iff)
  then show ?case
    by (cases "insertRec c0 k v") (auto split: option.splits)
next
  case (Cons c pre)
  then show ?case
    by (simp add: insertRec_nocommon')
qed

lemma siblingsDisjoint_append:
  "siblingsDisjoint (xs @ ys) \<longleftrightarrow>
     siblingsDisjoint xs \<and> siblingsDisjoint ys \<and> (\<forall>x \<in> set xs. \<forall>y \<in> set ys. \<not> sharesLead x y)"
  by (induction xs) auto

lemma siblingsDisjoint_others:
  assumes "siblingsDisjoint (map key (pre @ c0 # post))" and "sharesLead (key c0) p"
  shows "\<forall>c \<in> set pre \<union> set post. longestCommonPrefix (key c) p = 0"
proof
  fix c assume "c \<in> set pre \<union> set post"
  with assms(1) have "\<not> sharesLead (key c) (key c0)"
    by (auto simp: siblingsDisjoint_append sharesLead_sym)
  with assms(2) have "\<not> sharesLead (key c) p"
    using sharesLead_trans by blast
  then show "longestCommonPrefix (key c) p = 0"
    by (simp add: lcp_zero_iff)
qed

lemma siblingsDisjoint_replace:
  assumes "siblingsDisjoint (xs @ a # ys)" and "sharesLead a' a"
  shows "siblingsDisjoint (xs @ a' # ys)"
proof -
  have "\<not> sharesLead x a \<Longrightarrow> \<not> sharesLead x a'" for x
    using assms(2) by (cases x; cases a; cases a') auto
  moreover have "\<not> sharesLead a y \<Longrightarrow> \<not> sharesLead a' y" for y
    using assms(2) by (cases y; cases a; cases a') auto
  ultimately show ?thesis
    using assms(1) by (auto simp: siblingsDisjoint_append)
qed

section \<open>What a successful insertion does\<close>

lemma entries_append_key:
  "entries (Node (a @ b) nval chs) = (\<lambda>(p, x). (a @ p, x)) ` entries (Node b nval chs)"
  by (auto simp: image_Un image_UN image_image split: option.splits prod.splits) force+

lemma wellFormed_key: "wellFormed n \<Longrightarrow> key n \<noteq> []"
  by (cases n) simp

lemma entries_prefix: "wellFormed n \<Longrightarrow> (p, x) \<in> entries n \<Longrightarrow> prefix (key n) p"
  by (cases n) (auto split: option.splits)

lemma insertRec_success:
  assumes "wellFormed n" and "k \<noteq> []" and "insertRec n k v = (n', None)"
  shows "wellFormed n' \<and> entries n' = insert (k, v) (entries n) \<and> sharesLead (key n') (key n)
         \<and> (staticNode n \<and> curlyStart \<notin> set k \<longrightarrow> staticNode n')"
  using assms
proof (induction n arbitrary: k n')
  case (Node nkey nval chs)
  let ?l = "longestCommonPrefix nkey k"
  from Node.prems(1) have nk: "nkey \<noteq> []" and dis: "siblingsDisjoint (map key chs)"
    and wfc: "\<forall>c \<in> set chs. wellFormed c"
    by simp_all
  have lpos: "0 < ?l"
  proof (rule ccontr)
    assume "\<not> 0 < ?l"
    then have "insertRec (Node nkey nval chs) k v = (Node nkey nval chs, Some ErrNoCommonPrefix)"
      by (simp add: insertRec_nocommon)
    with Node.prems(3) show False by simp
  qed
  have tk: "take ?l nkey = take ?l k" by (rule lcp_take)
  have self: "sharesLead nkey nkey" using nk by (cases nkey) simp_all
  consider (exact) "?l = length nkey" "length k = length nkey"
    | (split) "?l < length nkey"
    | (descend) "?l = length nkey" "length k \<noteq> length nkey"
    using lcp_le(1) [of nkey k] by linarith
  then show ?case
  proof cases
    case exact
    then have keq: "k = nkey"
      by (metis lcp_take take_all_iff order_refl)
    from Node.prems(3) exact lpos have "nval = None" and "n' = Node nkey (Some v) chs"
      by (auto simp: insertRec_exact split: if_splits)
    then show ?thesis
      using Node.prems(1) keq self by auto
  next
    case split
    have dk: "drop ?l nkey \<noteq> []" using split by simp
    have wfo: "wellFormed (Node (drop ?l nkey) nval chs)"
      using dk dis wfc by simp
    have tke: "take ?l nkey \<noteq> []" using lpos nk by simp
    have lead: "sharesLead (take ?l nkey) nkey"
      using lpos self by (simp add: sharesLead_take)
    have ent: "entries (Node nkey nval chs)
        = (\<lambda>(p, x). (take ?l nkey @ p, x)) ` entries (Node (drop ?l nkey) nval chs)"
      using entries_append_key [of "take ?l nkey" "drop ?l nkey" nval chs] by simp
    have st: "staticNode (Node nkey nval chs) \<Longrightarrow> curlyStart \<notin> set (take ?l nkey)
        \<and> staticNode (Node (drop ?l nkey) nval chs)"
      by (auto dest: in_set_takeD in_set_dropD)
    show ?thesis
    proof (cases "length k = ?l")
      case True
      then have keq: "k = take ?l nkey" using tk by simp
      from Node.prems(3) split lpos True
      have n': "n' = Node (take ?l nkey) (Some v) [Node (drop ?l nkey) nval chs]"
        by (simp add: insertRec_split)
      have "entries n' = insert (k, v) (entries (Node nkey nval chs))"
        unfolding ent n' using keq by simp
      then show ?thesis
        using wfo tke lead st by (simp add: n')
    next
      case False
      then have dkk: "drop ?l k \<noteq> []" using lcp_le(2) [of nkey k] by simp
      have keq: "k = take ?l nkey @ drop ?l k" using tk by simp
      from Node.prems(3) split lpos False
      have n': "n' = Node (take ?l nkey) None
                 [Node (drop ?l nkey) nval chs, Node (drop ?l k) (Some v) []]"
        by (simp add: insertRec_split)
      have "entries n' = insert (take ?l nkey @ drop ?l k, v) (entries (Node nkey nval chs))"
        unfolding ent n' by auto
      then have e: "entries n' = insert (k, v) (entries (Node nkey nval chs))"
        using keq by simp
      have stk: "curlyStart \<notin> set k \<Longrightarrow> curlyStart \<notin> set (drop ?l k)"
        by (auto dest: in_set_dropD)
      show ?thesis
        using wfo tke lead st stk dkk lcp_maximal [of nkey k] e by (simp add: n')
    qed
  next
    case descend
    let ?p = "drop (length nkey) k"
    have pre: "prefix nkey k" using descend(1) by (simp add: lcp_full_iff)
    then have keq: "k = nkey @ ?p" by (metis append_eq_conv_conj prefix_def)
    have pne: "?p \<noteq> []" using keq descend(2) by (metis append_Nil2)
    have stp: "curlyStart \<notin> set k \<Longrightarrow> curlyStart \<notin> set ?p"
      by (auto dest: in_set_dropD)
    note ins = insertRec_descend [OF lpos descend(1) descend(2), of nval chs v]
    show ?thesis
    proof (cases "\<forall>c \<in> set chs. longestCommonPrefix (key c) ?p = 0")
      case True
      then have n': "n' = Node nkey nval (chs @ [Node ?p (Some v) []])"
        using Node.prems(3) by (simp add: ins iterateInsert_none)
      have d': "siblingsDisjoint (map key chs @ [?p])"
        using dis True by (auto simp: siblingsDisjoint_append lcp_zero_iff)
      have "entries n' = insert (nkey @ ?p, v) (entries (Node nkey nval chs))"
        unfolding n' by auto
      then have "entries n' = insert (k, v) (entries (Node nkey nval chs))"
        using keq by simp
      then show ?thesis
        using nk d' wfc pne self stp by (auto simp: n')
    next
      case False
      then obtain pr c0 po where chs: "chs = pr @ c0 # po"
        and prz: "\<forall>c \<in> set pr. longestCommonPrefix (key c) ?p = 0"
        and c0: "0 < longestCommonPrefix (key c0) ?p"
        using split_list_first_prop [of chs "\<lambda>c. longestCommonPrefix (key c) ?p \<noteq> 0"]
        by auto
      obtain c0' e where r: "insertRec c0 ?p v = (c0', e)" by (cases "insertRec c0 ?p v")
      have it: "iterateInsert chs ?p v = (pr @ c0' # po, e)"
        using iterateInsert_at [OF prz c0, of po v] r by (simp add: chs)
      have ne: "e \<noteq> Some ErrNoCommonPrefix"
        using c0 insertRec_nocommon_iff [of c0 ?p v] r by simp
      from Node.prems(3) ne have e: "e = None" and n': "n' = Node nkey nval (pr @ c0' # po)"
        by (auto simp: ins it split: option.splits if_splits)
      have c0in: "c0 \<in> set chs" by (simp add: chs)
      with wfc have wf0: "wellFormed c0" by blast
      from Node.IH [OF c0in wf0 pne] r e
      have ih: "wellFormed c0'" "entries c0' = insert (?p, v) (entries c0)"
        "sharesLead (key c0') (key c0)" "staticNode c0 \<and> curlyStart \<notin> set ?p \<longrightarrow> staticNode c0'"
        by simp_all
      have d': "siblingsDisjoint (map key (pr @ c0' # po))"
        using siblingsDisjoint_replace [of "map key pr" "key c0" "map key po" "key c0'"] dis ih(3)
        by (simp add: chs)
      have "entries n' = insert (nkey @ ?p, v) (entries (Node nkey nval chs))"
        unfolding n' chs using ih(2) by auto
      then have en: "entries n' = insert (k, v) (entries (Node nkey nval chs))"
        using keq by simp
      have wf': "wellFormed n'"
        using nk d' wfc ih(1) by (auto simp: n' chs)
      have st': "staticNode (Node nkey nval chs) \<and> curlyStart \<notin> set k \<longrightarrow> staticNode n'"
        using ih(4) stp by (auto simp: n' chs)
      show ?thesis
        using wf' en st' self by (simp add: n')
    qed
  qed
qed

section \<open>Compression is kept by every insertion\<close>

lemma insertRec_compressed:
  assumes "compressed n"
  shows "compressed (fst (insertRec n k v))
         \<and> (\<forall>b. sharesLead (key (fst (insertRec n k v))) b \<longleftrightarrow> sharesLead (key n) b)"
  using assms
proof (induction n arbitrary: k)
  case (Node nkey nval chs)
  let ?l = "longestCommonPrefix nkey k"
  from Node.prems have dis: "siblingsDisjoint (map key chs)"
    and cc: "\<forall>c \<in> set chs. compressed c"
    by simp_all
  consider (none) "?l = 0"
    | (exact) "0 < ?l" "?l = length nkey" "length k = length nkey"
    | (split) "0 < ?l" "?l < length nkey"
    | (descend) "0 < ?l" "?l = length nkey" "length k \<noteq> length nkey"
    using lcp_le(1) [of nkey k] by linarith
  then show ?case
  proof cases
    case none
    then show ?thesis using Node.prems by (simp add: insertRec_nocommon)
  next
    case exact
    then show ?thesis using Node.prems by (simp add: insertRec_exact)
  next
    case split
    have "\<not> sharesLead (drop ?l nkey) (drop ?l k)" by (rule lcp_maximal)
    then show ?thesis
      using split dis cc by (simp add: insertRec_split sharesLead_take)
  next
    case descend
    let ?p = "drop (length nkey) k"
    note ins = insertRec_descend [OF descend, of nval chs v]
    show ?thesis
    proof (cases "\<forall>c \<in> set chs. longestCommonPrefix (key c) ?p = 0")
      case True
      have "siblingsDisjoint (map key chs @ [?p])"
        using dis True by (auto simp: siblingsDisjoint_append lcp_zero_iff)
      then show ?thesis
        using cc True by (auto simp: ins iterateInsert_none)
    next
      case False
      then obtain pr c0 po where chs: "chs = pr @ c0 # po"
        and prz: "\<forall>c \<in> set pr. longestCommonPrefix (key c) ?p = 0"
        and c0: "0 < longestCommonPrefix (key c0) ?p"
        using split_list_first_prop [of chs "\<lambda>c. longestCommonPrefix (key c) ?p \<noteq> 0"]
        by auto
      obtain c0' e where r: "insertRec c0 ?p v = (c0', e)" by (cases "insertRec c0 ?p v")
      have it: "iterateInsert chs ?p v = (pr @ c0' # po, e)"
        using iterateInsert_at [OF prz c0, of po v] r by (simp add: chs)
      have ne: "e \<noteq> Some ErrNoCommonPrefix"
        using c0 insertRec_nocommon_iff [of c0 ?p v] r by simp
      have c0in: "c0 \<in> set chs" by (simp add: chs)
      with cc have "compressed c0" by blast
      from Node.IH [OF c0in this, of ?p] r
      have ih: "compressed c0'" "\<forall>b. sharesLead (key c0') b \<longleftrightarrow> sharesLead (key c0) b"
        by simp_all
      have "c0 \<noteq> c0' \<Longrightarrow> sharesLead (key c0') (key c0)"
        using ih(2) c0 by (metis lcp_zero_iff less_numeral_extra(3) sharesLead_sym sharesLead_trans)
      moreover have "c0 = c0' \<Longrightarrow> siblingsDisjoint (map key (pr @ c0' # po))"
        using dis by (simp add: chs)
      ultimately have d': "siblingsDisjoint (map key (pr @ c0' # po))"
        using siblingsDisjoint_replace [of "map key pr" "key c0" "map key po" "key c0'"] dis
        by (cases "c0 = c0'") (simp_all add: chs)
      have res: "fst (insertRec (Node nkey nval chs) k v) = Node nkey nval (pr @ c0' # po)"
        using ne by (cases e) (simp_all add: ins it)
      show ?thesis
        unfolding res using d' cc ih(1) by (auto simp: chs)
    qed
  qed
qed

section \<open>A stored key cannot be inserted again\<close>

lemma insertRec_duplicate:
  assumes "wellFormed n" and "(k, x) \<in> entries n"
  shows "insertRec n k v = (n, Some ErrKeyIsAlreadyStored)"
  using assms
proof (induction n arbitrary: k)
  case (Node nkey nval chs)
  from Node.prems(1) have nk: "nkey \<noteq> []" and dis: "siblingsDisjoint (map key chs)"
    and wfc: "\<forall>c \<in> set chs. wellFormed c"
    by simp_all
  from Node.prems(2) consider (here) "nval = Some x" "k = nkey"
    | (below) c p where "c \<in> set chs" "(p, x) \<in> entries c" "k = nkey @ p"
    by (auto split: option.splits)
  then show ?case
  proof cases
    case here
    then show ?thesis using nk by (simp add: insertRec_exact)
  next
    case below
    from wfc below(1) have wf: "wellFormed c" by blast
    from entries_prefix [OF wf below(2)] have pc: "prefix (key c) p" .
    have kc: "key c \<noteq> []" using wf by (rule wellFormed_key)
    with pc have pne: "p \<noteq> []" by auto
    have lead: "sharesLead (key c) p" using kc pc by (rule sharesLead_prefix)
    from below(1) obtain pr po where chs: "chs = pr @ c # po"
      by (auto dest: split_list)
    have prz: "\<forall>c' \<in> set pr. longestCommonPrefix (key c') p = 0"
      using siblingsDisjoint_others [of pr c po p] dis lead by (simp add: chs)
    have cpos: "0 < longestCommonPrefix (key c) p"
      using lead lcp_zero_iff [of "key c" p] by simp
    have it: "iterateInsert chs p v = (chs, Some ErrKeyIsAlreadyStored)"
      using iterateInsert_at [OF prz cpos, of po v] Node.IH [OF below(1) wf below(2)]
      by (simp add: chs)
    have l: "longestCommonPrefix nkey k = length nkey" by (simp add: below(3))
    have "insertRec (Node nkey nval chs) k v =
        (case iterateInsert chs (drop (length nkey) k) v of
           (chs', None) \<Rightarrow> (Node nkey nval chs', None)
         | (chs', Some err) \<Rightarrow>
             (if err \<noteq> ErrNoCommonPrefix then (Node nkey nval chs', Some err)
              else (Node nkey nval (chs' @ [Node (drop (length nkey) k) (Some v) []]), None)))"
      using nk pne by (intro insertRec_descend) (simp_all add: l below(3))
    then show ?thesis by (simp add: below(3) it)
  qed
qed

section \<open>Insertion at the level of the tree\<close>

lemma wellFormed_compressed: "wellFormed n \<Longrightarrow> compressed n"
  by (induction n) simp

lemma Insert_success:
  assumes "wellFormedTree t" and "Insert (Some t) k v = (Some t', None)"
  shows "wellFormedTree t'
         \<and> treeEntries t' = insert (k, createNewNodeValue v (getPathParams k)) (treeEntries t)
         \<and> (staticTree t \<and> curlyStart \<notin> set k \<longrightarrow> staticTree t')
         \<and> k \<noteq> [] \<and> checkUrl k = None"
proof -
  let ?nv = "createNewNodeValue v (getPathParams k)"
  from assms(2) have kne: "k \<noteq> []" and chk: "checkUrl k = None"
    by (auto simp: Insert_def split: if_splits option.splits)
  show ?thesis
  proof (cases "root t")
    case None
    with assms(2) kne chk have "t' = t\<lparr>root := Some (Node k (Some ?nv) [])\<rparr>"
      by (simp add: Insert_def createNewNode_def Let_def)
    then show ?thesis
      using None kne chk by (simp add: wellFormedTree_def treeEntries_def staticTree_def)
  next
    case (Some r)
    obtain r' e where r: "insertRec r k ?nv = (r', e)" by (cases "insertRec r k ?nv")
    with assms(2) kne chk Some have e: "e = None" and t': "t' = t\<lparr>root := Some r'\<rparr>"
      by (simp_all add: Insert_def Let_def)
    from assms(1) Some have "wellFormed r" by (simp add: wellFormedTree_def)
    from insertRec_success [OF this kne] r e show ?thesis
      using Some kne chk by (simp add: t' wellFormedTree_def treeEntries_def staticTree_def)
  qed
qed

lemma insertAll_inv:
  assumes "wellFormedTree t" and "insertAll t kvs = Some t'"
  shows "wellFormedTree t'
         \<and> treeEntries t' =
             treeEntries t \<union> (\<lambda>(k, v). (k, createNewNodeValue v (getPathParams k))) ` set kvs
         \<and> (staticTree t \<and> (\<forall>(k, v) \<in> set kvs. curlyStart \<notin> set k) \<longrightarrow> staticTree t')
         \<and> (\<forall>(k, v) \<in> set kvs. k \<noteq> [] \<and> checkUrl k = None)"
  using assms
proof (induction kvs arbitrary: t)
  case Nil
  then show ?case by simp
next
  case (Cons kv kvs)
  obtain k v where kv: "kv = (k, v)" by (cases kv)
  from Cons.prems(2) obtain t1 where i: "Insert (Some t) k v = (Some t1, None)"
    and r: "insertAll t1 kvs = Some t'"
    by (auto simp: kv split: prod.splits option.splits)
  from Insert_success [OF Cons.prems(1) i] Cons.IH [OF _ r]
  show ?case by (auto simp: kv)
qed

lemma New_wellFormed: "wellFormedTree New" "treeEntries New = {}" "staticTree New"
  by (simp_all add: New_def wellFormedTree_def treeEntries_def staticTree_def)

lemma Insert_compressed:
  assumes "compressedTree t"
  shows "\<forall>t'. fst (Insert (Some t) k v) = Some t' \<longrightarrow> compressedTree t'"
proof (cases "root t")
  case None
  then show ?thesis
    using assms
    by (auto simp: Insert_def compressedTree_def createNewNode_def Let_def
        split: option.splits if_splits)
next
  case (Some r)
  with assms have "compressed r" by (simp add: compressedTree_def)
  from insertRec_compressed [OF this] show ?thesis
    using Some assms
    by (auto simp: Insert_def compressedTree_def Let_def split: option.splits if_splits prod.splits)
       (metis fst_conv)
qed

lemma insertAll_compressed:
  "compressedTree t \<Longrightarrow> insertAll t kvs = Some t' \<Longrightarrow> compressedTree t'"
proof (induction kvs arbitrary: t)
  case Nil
  then show ?case by simp
next
  case (Cons kv kvs)
  obtain k v where kv: "kv = (k, v)" by (cases kv)
  from Cons.prems(2) obtain t1 where i: "Insert (Some t) k v = (Some t1, None)"
    and r: "insertAll t1 kvs = Some t'"
    by (auto simp: kv split: prod.splits option.splits)
  from Insert_compressed [OF Cons.prems(1), of k v] i have "compressedTree t1" by simp
  from Cons.IH [OF this r] show ?case .
qed

text \<open>
  Claim C9. After any sequence of successful insertions that starts from the empty
  tree, no two children of the same node have fragments that share a common leading
  character; and every insertion, successful or not and whichever case of the
  algorithm it takes (new child, payload on an existing node, split), keeps this
  property of the tree it is applied to.
\<close>

theorem inserts_keep_compression:
  "(insertAll New kvs = Some t \<longrightarrow> compressedTree t)
   \<and> (compressedTree t0 \<longrightarrow> (\<forall>t1. fst (Insert (Some t0) k v) = Some t1 \<longrightarrow> compressedTree t1))"
  using insertAll_compressed [of New kvs t] Insert_compressed [of t0 k v]
  by (simp add: compressedTree_def New_def)

lemma Insert_failure_unchanged: "snd (Insert tr k v) \<noteq> None \<Longrightarrow> fst (Insert tr k v) = tr"
proof (cases tr)
  case None
  then show ?thesis by (simp add: Insert_def)
next
  case (Some t)
  assume f: "snd (Insert tr k v) \<noteq> None"
  show ?thesis
  proof (cases "k \<noteq> [] \<and> checkUrl k = None")
    case False
    then show ?thesis using Some by (auto simp: Insert_def)
  next
    case True
    show ?thesis
    proof (cases "root t")
      case None
      with f True Some show ?thesis by (simp add: Insert_def Let_def)
    next
      case r: (Some r)
      let ?nv = "createNewNodeValue v (getPathParams k)"
      obtain r' e where i: "insertRec r k ?nv = (r', e)" by (cases "insertRec r k ?nv")
      with f True Some r obtain err where "e = Some err"
        by (auto simp: Insert_def Let_def)
      with insert_failure_unchanged(1) i have "r' = r" by blast
      then show ?thesis using True Some r i by (simp add: Insert_def Let_def)
    qed
  qed
qed

text \<open>
  Claim C4. In a tree built from the empty tree by successful insertions, inserting a
  key of the sequence once more fails with the key-already-stored error and returns
  the tree as it was. Any failing \<open>Insert\<close>, whatever the tree (a nil tree included)
  and whatever the error (the validation errors included), returns the tree as it was,
  so every later \<open>Find\<close>, \<open>FindLongestMatch\<close>, \<open>GetAllLeaf\<close> and \<open>GetByPredicate\<close>
  gives the result it gave before the attempt.
\<close>

theorem insert_duplicate_all_or_nothing:
  "(insertAll New kvs = Some t \<and> (k, v0) \<in> set kvs \<longrightarrow>
      Insert (Some t) k v = (Some t, Some ErrKeyIsAlreadyStored))
   \<and> (snd (Insert tr k' v') \<noteq> None \<longrightarrow>
        fst (Insert tr k' v') = tr
        \<and> (\<forall>q. Find (fst (Insert tr k' v')) q = Find tr q)
        \<and> (\<forall>q. FindLongestMatch (fst (Insert tr k' v')) q = FindLongestMatch tr q)
        \<and> GetAllLeaf (fst (Insert tr k' v')) = GetAllLeaf tr
        \<and> (\<forall>fn. GetByPredicate (fst (Insert tr k' v')) fn = GetByPredicate tr fn))"
proof -
  have "Insert (Some t) k v = (Some t, Some ErrKeyIsAlreadyStored)"
    if a: "insertAll New kvs = Some t" and b: "(k, v0) \<in> set kvs"
  proof -
    let ?x = "createNewNodeValue v0 (getPathParams k)"
    from insertAll_inv [OF New_wellFormed(1) a] b
    have wf: "wellFormedTree t" and en: "(k, ?x) \<in> treeEntries t"
      and kne: "k \<noteq> []" and chk: "checkUrl k = None"
      by (auto simp: New_wellFormed(2))
    from en obtain r where r: "root t = Some r" and er: "(k, ?x) \<in> entries r"
      by (auto simp: treeEntries_def split: option.splits)
    from wf r have wfr: "wellFormed r" by (simp add: wellFormedTree_def)
    show ?thesis
      using r kne chk insertRec_duplicate [OF wfr er] by (simp add: Insert_def Let_def)
  qed
  then show ?thesis
    using Insert_failure_unchanged [of tr k' v'] by simp
qed

lemma Insert_nonnil: "\<exists>t'. fst (Insert (Some t) k v) = Some t'"
  by (simp add: Insert_def Let_def split: option.splits prod.splits)

theorem inserts_keep_compression_witness:
  "\<exists>t. insertAll New [(''/foo/bar'', 1 :: nat), (''/foo/baz'', 2), (''/foo'', 3)] = Some t
       \<and> compressedTree t
       \<and> (\<exists>t1. fst (Insert (Some t) ''/foo/{id}'' 4) = Some t1 \<and> compressedTree t1)"
proof -
  let ?kvs = "[(''/foo/bar'', 1 :: nat), (''/foo/baz'', 2), (''/foo'', 3)]"
  obtain t where t: "insertAll New ?kvs = Some t"
    by (simp add: eval_simps insertRec.simps)
  obtain t1 where t1: "fst (Insert (Some t) ''/foo/{id}'' 4) = Some t1"
    using Insert_nonnil [of t "''/foo/{id}''" 4] by blast
  from inserts_keep_compression [of ?kvs t t "''/foo/{id}''" 4] t t1
  show ?thesis by blast
qed

theorem insert_duplicate_all_or_nothing_witness:
  "\<exists>t. insertAll New [(''/foo/bar'', 1 :: nat), (''/foo/baz'', 2), (''/foo'', 3)] = Some t
       \<and> Insert (Some t) ''/foo'' 9 = (Some t, Some ErrKeyIsAlreadyStored)
       \<and> Insert (Some t) ''/foo/'' 9 = (Some t, Some ErrPresentSlashSuffix)
       \<and> Find (fst (Insert (Some t) ''/foo/'' 9)) ''/foo/bar'' = Find (Some t) ''/foo/bar''"
proof -
  let ?kvs = "[(''/foo/bar'', 1 :: nat), (''/foo/baz'', 2), (''/foo'', 3)]"
  obtain t where t: "insertAll New ?kvs = Some t"
    by (simp add: eval_simps insertRec.simps)
  have m: "(''/foo'', 3) \<in> set ?kvs" by simp
  have s: "Insert (Some t) ''/foo/'' 9 = (Some t, Some ErrPresentSlashSuffix)"
    by (simp add: Insert_def checkUrl_def slash_def)
  from insert_duplicate_all_or_nothing [of ?kvs t "''/foo''" 3 9 "Some t" "''/foo/''" 9] t m s
  show ?thesis by simp
qed

section \<open>Lookup of a stored key in a tree without wildcards\<close>

lemma findRec_static_node:
  "curlyStart \<notin> set nkey \<Longrightarrow>
   findRec (Node nkey nval chs) k False =
     (if longestCommonPrefix nkey k = 0 then None
      else if k = nkey then Some (Node nkey nval chs)
      else if longestCommonPrefix nkey k < length nkey then None
      else findRec_children chs (drop (longestCommonPrefix nkey k) k) False)"
  by (simp add: Let_def)

lemma findRec_children_skip:
  "\<forall>c \<in> set pre. findRec c k w = None \<Longrightarrow>
   findRec_children (pre @ rest) k w = findRec_children rest k w"
  by (induction pre) simp_all

lemma findRec_static_nocommon:
  "staticNode c \<Longrightarrow> longestCommonPrefix (key c) p = 0 \<Longrightarrow> findRec c p False = None"
  by (cases c) (simp add: findRec_static_node)

lemma findRec_static:
  assumes "wellFormed n" and "staticNode n" and "(k, x) \<in> entries n"
  shows "\<exists>m. findRec n k False = Some m \<and> nodeValue m = Some x"
  using assms
proof (induction n arbitrary: k)
  case (Node nkey nval chs)
  from Node.prems(1) have nk: "nkey \<noteq> []" and dis: "siblingsDisjoint (map key chs)"
    and wfc: "\<forall>c \<in> set chs. wellFormed c"
    by simp_all
  from Node.prems(2) have st: "curlyStart \<notin> set nkey" and stc: "\<forall>c \<in> set chs. staticNode c"
    by simp_all
  from Node.prems(3) consider (here) "nval = Some x" "k = nkey"
    | (below) c p where "c \<in> set chs" "(p, x) \<in> entries c" "k = nkey @ p"
    by (auto split: option.splits)
  then show ?case
  proof cases
    case here
    then show ?thesis using nk st by (simp add: findRec_static_node)
  next
    case below
    from wfc below(1) have wf: "wellFormed c" by blast
    from entries_prefix [OF wf below(2)] have pc: "prefix (key c) p" .
    have kc: "key c \<noteq> []" using wf by (rule wellFormed_key)
    with pc have pne: "p \<noteq> []" by auto
    have lead: "sharesLead (key c) p" using kc pc by (rule sharesLead_prefix)
    from below(1) obtain pr po where chs: "chs = pr @ c # po"
      by (auto dest: split_list)
    have "\<forall>c' \<in> set pr. longestCommonPrefix (key c') p = 0"
      using siblingsDisjoint_others [of pr c po p] dis lead by (simp add: chs)
    with stc have prn: "\<forall>c' \<in> set pr. findRec c' p False = None"
      by (auto simp: chs intro: findRec_static_nocommon)
    from Node.IH [OF below(1) wf _ below(2)] stc below(1)
    obtain m where m: "findRec c p False = Some m" "nodeValue m = Some x" by blast
    have "findRec_children chs p False = Some m"
      using findRec_children_skip [OF prn, of "c # po"] m(1) by (simp add: chs)
    then show ?thesis
      using nk st pne m(2) by (simp add: findRec_static_node below(3))
  qed
qed

section \<open>A wildcard-free key keeps its place when later keys arrive\<close>

lemma findRec_static_key_nocommon:
  "curlyStart \<notin> set (key c) \<Longrightarrow> longestCommonPrefix (key c) p = 0 \<Longrightarrow> findRec c p False = None"
  by (cases c) (simp add: findRec_static_node)

lemma firstFound_findRec:
  "firstFound n k x \<Longrightarrow> \<exists>m. findRec n k False = Some m \<and> nodeValue m = Some x"
  "firstFoundIn ns p x \<Longrightarrow> \<exists>m. findRec_children ns p False = Some m \<and> nodeValue m = Some x"
proof (induction n k x and ns p x rule: firstFound_firstFoundIn.induct)
  case (1 nkey nval chs k x)
  from "1.prems" have st: "curlyStart \<notin> set nkey" and ne: "nkey \<noteq> []" and pre: "prefix nkey k"
    by simp_all
  from pre have l: "longestCommonPrefix nkey k = length nkey" by (simp add: lcp_full_iff)
  show ?case
  proof (cases "k = nkey")
    case True
    with "1.prems" ne st show ?thesis by (simp add: findRec_static_node)
  next
    case False
    with "1.prems" have "firstFoundIn chs (drop (length nkey) k) x" by simp
    from "1.IH" [OF False this] show ?thesis
      using False ne st l by (simp add: findRec_static_node)
  qed
next
  case (2 p x)
  then show ?case by simp
next
  case (3 c rest p x)
  show ?case
  proof (cases "longestCommonPrefix (key c) p = 0")
    case True
    with "3.prems" have s: "curlyStart \<notin> set (key c)" and r: "firstFoundIn rest p x"
      by simp_all
    from "3.IH"(1) [OF True r] findRec_static_key_nocommon [OF s True]
    show ?thesis by simp
  next
    case False
    with "3.prems" have "firstFound c p x" by simp
    from "3.IH"(2) [OF False this] show ?thesis by auto
  qed
qed

lemma firstFoundIn_skip:
  "\<forall>c \<in> set pr. longestCommonPrefix (key c) p = 0 \<and> curlyStart \<notin> set (key c) \<Longrightarrow>
   firstFoundIn (pr @ rest) p x = firstFoundIn rest p x"
  by (induction pr) simp_all

lemma staticNode_key: "staticNode c \<Longrightarrow> curlyStart \<notin> set (key c)"
  by (cases c) simp

lemma entries_firstFound:
  assumes "wellFormed n" and "staticNode n" and "(k, x) \<in> entries n"
  shows "firstFound n k x"
  using assms
proof (induction n arbitrary: k)
  case (Node nkey nval chs)
  from Node.prems(1) have nk: "nkey \<noteq> []" and dis: "siblingsDisjoint (map key chs)"
    and wfc: "\<forall>c \<in> set chs. wellFormed c"
    by simp_all
  from Node.prems(2) have st: "curlyStart \<notin> set nkey" and stc: "\<forall>c \<in> set chs. staticNode c"
    by simp_all
  from Node.prems(3) consider (here) "nval = Some x" "k = nkey"
    | (below) c p where "c \<in> set chs" "(p, x) \<in> entries c" "k = nkey @ p"
    by (auto split: option.splits)
  then show ?case
  proof cases
    case here
    then show ?thesis using nk st by simp
  next
    case below
    from wfc below(1) have wf: "wellFormed c" by blast
    from entries_prefix [OF wf below(2)] have pc: "prefix (key c) p" .
    have kc: "key c \<noteq> []" using wf by (rule wellFormed_key)
    with pc have pne: "p \<noteq> []" by auto
    have lead: "sharesLead (key c) p" using kc pc by (rule sharesLead_prefix)
    from below(1) obtain pr po where chs: "chs = pr @ c # po"
      by (auto dest: split_list)
    have "\<forall>c' \<in> set pr. longestCommonPrefix (key c') p = 0"
      using siblingsDisjoint_others [of pr c po p] dis lead by (simp add: chs)
    with stc have prn: "\<forall>c' \<in> set pr. longestCommonPrefix (key c') p = 0 \<and> curlyStart \<notin> set (key c')"
      by (simp add: chs staticNode_key)
    have cpos: "longestCommonPrefix (key c) p \<noteq> 0"
      using lead lcp_zero_iff [of "key c" p] by simp
    from Node.IH [OF below(1) wf _ below(2)] stc below(1)
    have "firstFound c p x" by blast
    with cpos have "firstFoundIn chs p x"
      using firstFoundIn_skip [OF prn, of "c # po" x] by (simp add: chs)
    then show ?thesis
      using nk st pne by (simp add: below(3))
  qed
qed

lemma insertRec_key:
  "key (fst (insertRec n k v)) = key n
   \<or> (0 < longestCommonPrefix (key n) k
       \<and> key (fst (insertRec n k v)) = take (longestCommonPrefix (key n) k) (key n))"
  by (cases n)
     (auto simp: insertRec.simps Let_def createNewNode_def addToChildren_def
        split: prod.splits option.splits)

lemma insertRec_key_facts:
  "curlyStart \<notin> set (key n) \<Longrightarrow> curlyStart \<notin> set (key (fst (insertRec n k v)))"
  "longestCommonPrefix (key (fst (insertRec n k v))) p = 0 \<longleftrightarrow> longestCommonPrefix (key n) p = 0"
  using insertRec_key [of n k v]
  by (auto simp: lcp_zero_iff sharesLead_take dest: in_set_takeD)

lemma firstFoundIn_append: "firstFoundIn chs p x \<Longrightarrow> firstFoundIn (chs @ ys) p x"
  by (induction chs) (auto split: if_splits)

lemma iterateInsert_fst:
  "fst (iterateInsert (ch # rest) k v) = fst (insertRec ch k v) # rest
   \<or> fst (iterateInsert (ch # rest) k v) = fst (insertRec ch k v) # fst (iterateInsert rest k v)"
  by (auto split: prod.splits option.splits)

lemma iterateInsert_firstFoundIn:
  assumes "\<And>c p. c \<in> set ns \<Longrightarrow> firstFound c p x \<Longrightarrow> firstFound (fst (insertRec c k v)) p x"
  shows "firstFoundIn ns p x \<Longrightarrow> firstFoundIn (fst (iterateInsert ns k v)) p x"
  using assms
proof (induction ns)
  case Nil
  then show ?case by simp
next
  case (Cons ch rest)
  let ?ch' = "fst (insertRec ch k v)"
  have ih: "firstFoundIn rest p x \<Longrightarrow> firstFoundIn (fst (iterateInsert rest k v)) p x"
    using Cons.IH Cons.prems(2) by simp
  have step: "firstFoundIn (?ch' # R) p x"
    if "R = rest \<or> R = fst (iterateInsert rest k v)" for R
  proof (cases "longestCommonPrefix (key ch) p = 0")
    case True
    with Cons.prems(1) have "curlyStart \<notin> set (key ch)" "firstFoundIn rest p x" by simp_all
    with that ih True show ?thesis
      by (auto simp: insertRec_key_facts)
  next
    case False
    with Cons.prems(1) have "firstFound ch p x" by simp
    with Cons.prems(2) [of ch p] have "firstFound ?ch' p x" by simp
    with False show ?thesis by (simp add: insertRec_key_facts)
  qed
  from iterateInsert_fst [of ch rest k v]
  obtain R where eq: "fst (iterateInsert (ch # rest) k v) = ?ch' # R"
    and R: "R = rest \<or> R = fst (iterateInsert rest k v)"
    by blast
  from step [OF R] show ?case by (simp only: eq)
qed

lemma insertRec_firstFound:
  "firstFound n k x \<Longrightarrow> firstFound (fst (insertRec n k' v)) k x"
proof (induction n arbitrary: k k')
  case (Node nkey nval chs)
  let ?l = "longestCommonPrefix nkey k'"
  from Node.prems have st: "curlyStart \<notin> set nkey" and ne: "nkey \<noteq> []" and pre: "prefix nkey k"
    and tl: "if k = nkey then nval = Some x else firstFoundIn chs (drop (length nkey) k) x"
    by simp_all
  consider (none) "?l = 0"
    | (exact) "0 < ?l" "?l = length nkey" "length k' = length nkey"
    | (split) "0 < ?l" "?l < length nkey"
    | (descend) "0 < ?l" "?l = length nkey" "length k' \<noteq> length nkey"
    using lcp_le(1) [of nkey k'] by linarith
  then show ?case
  proof cases
    case none
    then show ?thesis using Node.prems by (simp add: insertRec_nocommon)
  next
    case exact
    then show ?thesis using Node.prems by (auto simp: insertRec_exact)
  next
    case split
    from pre obtain q where k: "k = nkey @ q" by (auto simp: prefix_def)
    have a: "curlyStart \<notin> set (take ?l nkey)" "curlyStart \<notin> set (drop ?l nkey)"
      using st by (auto dest: in_set_takeD in_set_dropD)
    have b: "take ?l nkey \<noteq> []" "drop ?l nkey \<noteq> []"
      using split ne by simp_all
    have keq: "k = take ?l nkey @ (drop ?l nkey @ q)" by (simp add: k)
    have c1: "prefix (take ?l nkey) k" by (rule prefixI) (rule keq)
    have "length (take ?l nkey) < length k" using split(2) by (simp add: k)
    then have c2: "k \<noteq> take ?l nkey" by auto
    note c = c1 c2
    have d0: "drop (length (take ?l nkey)) k = drop ?l k"
      using split by simp
    have d: "drop ?l k = drop ?l nkey @ q"
      using split by (simp add: k)
    have e: "longestCommonPrefix (drop ?l nkey) (drop ?l nkey @ q) \<noteq> 0"
      using b(2) by simp
    have f: "firstFound (Node (drop ?l nkey) nval chs) (drop ?l nkey @ q) x"
      using a(2) b(2) tl by (auto simp: k)
    have g: "firstFoundIn (Node (drop ?l nkey) nval chs # M) (drop ?l k) x" for M
      unfolding d firstFoundIn.simps using e f by (simp del: firstFound.simps)
    have "\<exists>V M. fst (insertRec (Node nkey nval chs) k' v)
        = Node (take ?l nkey) V (Node (drop ?l nkey) nval chs # M)"
      using split by (cases "length k' = ?l") (simp_all add: insertRec_split)
    then obtain V M where res: "fst (insertRec (Node nkey nval chs) k' v)
        = Node (take ?l nkey) V (Node (drop ?l nkey) nval chs # M)"
      by blast
    show ?thesis
      unfolding res firstFound.simps d0 using a(1) b(1) c g [of M] by (simp only: if_False simp_thms)
  next
    case descend
    let ?p' = "drop (length nkey) k'"
    note ins = insertRec_descend [OF descend, of nval chs v]
    obtain chs' e where it: "iterateInsert chs ?p' v = (chs', e)"
      by (cases "iterateInsert chs ?p' v")
    have f: "firstFoundIn chs p x \<Longrightarrow> firstFoundIn chs' p x" for p
      using iterateInsert_firstFoundIn [of chs x ?p' v p] Node.IH it by simp
    have res: "fst (insertRec (Node nkey nval chs) k' v) = Node nkey nval chs'
        \<or> fst (insertRec (Node nkey nval chs) k' v)
            = Node nkey nval (chs' @ [Node ?p' (Some v) []])"
      by (cases e) (simp_all add: ins it)
    have g: "firstFound (Node nkey nval R) k x"
      if "\<And>p. firstFoundIn chs p x \<Longrightarrow> firstFoundIn R p x" for R
    proof (cases "k = nkey")
      case True
      with st ne tl show ?thesis by simp
    next
      case False
      with tl have "firstFoundIn chs (drop (length nkey) k) x" by simp
      from that [OF this] show ?thesis using False st ne pre by simp
    qed
    from res show ?thesis
    proof
      assume a: "fst (insertRec (Node nkey nval chs) k' v) = Node nkey nval chs'"
      show ?thesis unfolding a by (rule g) (rule f)
    next
      assume a: "fst (insertRec (Node nkey nval chs) k' v)
            = Node nkey nval (chs' @ [Node ?p' (Some v) []])"
      show ?thesis unfolding a by (rule g) (rule firstFoundIn_append, rule f)
    qed
  qed
qed

lemma Insert_firstFound:
  assumes "firstFoundTree t k x" and "fst (Insert (Some t) k' v) = Some t'"
  shows "firstFoundTree t' k x"
proof -
  from assms(1) obtain r where r: "root t = Some r" and f: "firstFound r k x"
    by (auto simp: firstFoundTree_def split: option.splits)
  let ?nv = "createNewNodeValue v (getPathParams k')"
  from assms(2) r have "t' = t \<or> t' = t\<lparr>root := Some (fst (insertRec r k' ?nv))\<rparr>"
    by (auto simp: Insert_def Let_def split: if_splits option.splits prod.splits)
  with r f insertRec_firstFound [OF f, of k' ?nv] show ?thesis
    by (auto simp: firstFoundTree_def)
qed

lemma insertAll_firstFound:
  "firstFoundTree t k x \<Longrightarrow> insertAll t kvs = Some t' \<Longrightarrow> firstFoundTree t' k x"
proof (induction kvs arbitrary: t)
  case Nil
  then show ?case by simp
next
  case (Cons kv kvs)
  obtain k' v' where kv: "kv = (k', v')" by (cases kv)
  from Cons.prems(2) obtain t1 where i: "Insert (Some t) k' v' = (Some t1, None)"
    and r: "insertAll t1 kvs = Some t'"
    by (auto simp: kv split: prod.splits option.splits)
  from Insert_firstFound [OF Cons.prems(1), of k' v' t1] i have "firstFoundTree t1 k x" by simp
  from Cons.IH [OF this r] show ?case .
qed

lemma insertAll_append:
  "insertAll t (xs @ ys) = (case insertAll t xs of None \<Rightarrow> None | Some t' \<Rightarrow> insertAll t' ys)"
  by (induction xs arbitrary: t) (auto split: prod.splits option.splits)

section \<open>Wildcard keys registered before a wildcard-free key\<close>

text \<open>
  The package documentation names ambiguous pairs of routes, such as
  \<open>/api/{resource}/get\<close> with \<open>/api/products/get\<close>, as unsupported, and says that a
  pair such as \<open>/api/{resource}/get\<close> with \<open>/api/products/get-all\<close> is fine. That pair
  does work:
\<close>

lemma find_documented_mix_works:
  "(case Insert (Some New) ''/api/{resource}/get'' (1 :: nat) of
      (t1, e1) \<Rightarrow>
    case Insert t1 ''/api/products/get-all'' 2 of
      (t2, e2) \<Rightarrow>
        e1 = None \<and> e2 = None
        \<and> Find t2 ''/api/products/get-all'' = Some \<lparr>fvalue = 2, fparams = Map.empty\<rparr>)"
  by (simp add: eval_simps insertRec.simps)

text \<open>
  But a wildcard key registered first can capture a wildcard-free key that it does not
  match. A fragment that contains a \<open>{\<close> puts \<open>findRec\<close> in wildcard mode for the whole
  fragment, and the scanner, started in wildcard mode, passes over the literal bytes
  before the \<open>{\<close> without comparing them: with \<open>/foo/{id}\<close> stored, \<open>Find\<close> of the
  stored key \<open>/zzz\<close> returns the value of \<open>/foo/{id}\<close>.
\<close>

lemma find_literal_bytes_skipped:
  "(case Insert (Some New) ''/foo/{id}'' (1 :: nat) of
      (t1, e1) \<Rightarrow>
    case Insert t1 ''/zzz'' 2 of
      (t2, e2) \<Rightarrow>
        e1 = None \<and> e2 = None
        \<and> Find t2 ''/zzz'' = Some \<lparr>fvalue = 1, fparams = Map.empty\<rparr>)"
  by (simp add: eval_simps insertRec.simps)

text \<open>
  With wildcard keys in the tree a stored wildcard-free key can even be reported absent,
  although no stored wildcard key matches it: the non-wildcard branch of \<open>findRec\<close>
  returns a node whose fragment equals the remaining key whether or not it carries a
  payload, and \<open>Find\<close> then gives up instead of trying the later siblings.
\<close>

lemma find_stored_key_absent:
  "(case Insert (Some New) ''/{x}/abc'' (1 :: nat) of
      (t1, e1) \<Rightarrow>
    case Insert t1 ''/{x}/abd'' 2 of
      (t2, e2) \<Rightarrow>
    case Insert t2 ''/{x}/e'' 3 of
      (t3, e3) \<Rightarrow>
    case Insert t3 ''/foo/ab'' 4 of
      (t4, e4) \<Rightarrow>
        e1 = None \<and> e2 = None \<and> e3 = None \<and> e4 = None \<and> Find t4 ''/foo/ab'' = None)"
  by (simp add: eval_simps insertRec.simps)

text \<open>
  Claim C1, as stated, fails: with the wildcard key \<open>/{id}\<close> inserted first (value 1)
  and the wildcard-free key \<open>/foo\<close> inserted second (value 2), both successfully,
  \<open>Find\<close> of \<open>/foo\<close> returns the value 1 of the wildcard key, with \<open>id\<close> bound to
  \<open>foo\<close>: the children are tried in registration order and the first match wins.
\<close>

theorem find_static_shadowed_by_wildcard:
  "(case Insert (Some New) ''/{id}'' (1 :: nat) of
      (t1, e1) \<Rightarrow>
    case Insert t1 ''/foo'' 2 of
      (t2, e2) \<Rightarrow>
        e1 = None \<and> e2 = None
        \<and> Find t2 ''/foo'' = Some \<lparr>fvalue = 1, fparams = [''id'' \<mapsto> ''foo'']\<rparr>)"
  by (simp add: eval_simps insertRec.simps)

text \<open>
  Claim C1, amended. Let a wildcard-free key be inserted successfully after a sequence
  of successful insertions of wildcard-free keys, and let any sequence of successful
  insertions follow, wildcard keys included. Then \<open>Find\<close> of the key returns the value
  it was inserted with, together with the empty parameter map.
\<close>

theorem find_static_roundtrip:
  assumes "insertAll New (earlier @ (k, v) # later) = Some t"
    and "\<forall>(k', v') \<in> set earlier. curlyStart \<notin> set k'"
    and "curlyStart \<notin> set k"
  shows "Find (Some t) k = Some \<lparr>fvalue = v, fparams = Map.empty\<rparr>"
proof -
  let ?x = "createNewNodeValue v (getPathParams k)"
  from assms(1) obtain t1 where t1: "insertAll New (earlier @ [(k, v)]) = Some t1"
    and t: "insertAll t1 later = Some t"
    using insertAll_append [of New "earlier @ [(k, v)]" later]
    by (auto split: option.splits)
  from insertAll_inv [OF New_wellFormed(1) t1] assms(2,3)
  have wf: "wellFormedTree t1" and en: "(k, ?x) \<in> treeEntries t1"
    and st: "staticTree t1" and kne: "k \<noteq> []"
    by (auto simp: New_wellFormed)
  from en obtain r1 where r1: "root t1 = Some r1" and er: "(k, ?x) \<in> entries r1"
    by (auto simp: treeEntries_def split: option.splits)
  from wf st r1 have "wellFormed r1" "staticNode r1"
    by (simp_all add: wellFormedTree_def staticTree_def)
  from entries_firstFound [OF this er] r1 have "firstFoundTree t1 k ?x"
    by (simp add: firstFoundTree_def)
  from insertAll_firstFound [OF this t]
  obtain r where r: "root t = Some r" and f: "firstFound r k ?x"
    by (auto simp: firstFoundTree_def split: option.splits)
  from firstFound_findRec(1) [OF f]
  obtain m where m: "findRec r k False = Some m" "nodeValue m = Some ?x" by blast
  from assms(3) have "getPathParams k = []" by (rule getPathParams_static)
  then show ?thesis
    using r kne m
    by (simp add: Find_def checkTree_def createNewNodeValue_def matchParams_def)
qed

theorem find_static_roundtrip_witness:
  "\<exists>t. insertAll New [(''/foo/bar'', 1 :: nat), (''/foo/baz'', 2), (''/{id}'', 3),
                      (''/foo/{id}'', 4)] = Some t
       \<and> Find (Some t) ''/foo/baz'' = Some \<lparr>fvalue = 2, fparams = Map.empty\<rparr>"
proof -
  let ?earlier = "[(''/foo/bar'', 1 :: nat)]"
  let ?later = "[(''/{id}'', 3 :: nat), (''/foo/{id}'', 4)]"
  obtain t where t: "insertAll New (?earlier @ (''/foo/baz'', 2) # ?later) = Some t"
    by (simp add: eval_simps insertRec.simps)
  have s: "\<forall>(k', v') \<in> set ?earlier. curlyStart \<notin> set k'"
    by (simp add: curlyStart_def)
  have k: "curlyStart \<notin> set ''/foo/baz''"
    by (simp add: curlyStart_def)
  from find_static_roundtrip [OF t s k] t show ?thesis by auto
qed

section \<open>Longest-prefix lookup\<close>

lemma reached_Nil_find: "reached n k = [] \<Longrightarrow> findLongestMatchRec n k = None"
  by (cases n) (auto simp: Let_def split: if_splits)

lemma reached_lead: "reached c p \<noteq> [] \<Longrightarrow> sharesLead (key c) p"
  by (cases c) (auto simp: Let_def lcp_zero_iff split: if_splits)

lemma longest_children_skip:
  "\<forall>c \<in> set pre. findLongestMatchRec c k = None \<Longrightarrow>
   findLongestMatchRec_children (pre @ rest) k = findLongestMatchRec_children rest k"
  by (induction pre) simp_all

lemma longest_children_none:
  "\<forall>c \<in> set cs. findLongestMatchRec c k = None \<Longrightarrow> findLongestMatchRec_children cs k = None"
  by (induction cs) simp_all

lemma reached_nocommon: "longestCommonPrefix (key c) p = 0 \<Longrightarrow> reached c p = []"
  by (cases c) (simp add: Let_def)

declare reached.simps [simp del] findLongestMatchRec.simps(1) [simp del]

lemma concat_reached_single:
  assumes "\<forall>c \<in> set pr \<union> set po. reached c p = []"
  shows "concat (map (\<lambda>c. reached c p) (pr @ c0 # po)) = reached c0 p"
proof -
  have e: "\<forall>c \<in> set cs. reached c p = [] \<Longrightarrow> concat (map (\<lambda>c. reached c p) cs) = []" for cs
    by (induction cs) simp_all
  from assms have a: "concat (map (\<lambda>c. reached c p) pr) = []"
    and b: "concat (map (\<lambda>c. reached c p) po) = []"
    by (auto intro: e)
  show ?thesis by (simp add: a b)
qed

lemma findLongestMatchRec_deepest:
  assumes "compressed n"
  shows "case findLongestMatchRec n k of
           None \<Rightarrow> \<forall>(d, m) \<in> set (reached n k). \<not> IsLeaf m
         | Some x \<Rightarrow>
             IsLeaf x
             \<and> (\<exists>d. (d, x) \<in> set (reached n k)
                  \<and> (\<forall>(d', m') \<in> set (reached n k). IsLeaf m' \<longrightarrow> d' \<le> d))"
  using assms
proof (induction n arbitrary: k)
  case (Node nkey nval chs)
  let ?n = "Node nkey nval chs"
  let ?l = "longestCommonPrefix nkey k"
  let ?p = "drop ?l k"
  from Node.prems have dis: "siblingsDisjoint (map key chs)"
    and cc: "\<forall>c \<in> set chs. compressed c"
    by simp_all
  show ?case
  proof (cases "?l \<noteq> 0 \<and> ?l = length nkey")
    case False
    then have "findLongestMatchRec ?n k = None" and "reached ?n k = []"
      by (auto simp: Let_def reached.simps findLongestMatchRec.simps)
    then show ?thesis by simp
  next
    case True
    then have l0: "?l \<noteq> 0" by (rule conjunct1)
    from True have ll: "?l = length nkey" by (rule conjunct2)
    have nk: "nkey \<noteq> []" using l0 by (cases nkey) simp_all
    have fnd: "findLongestMatchRec ?n k =
        (case findLongestMatchRec_children chs ?p of
           Some node \<Rightarrow> Some node
         | None \<Rightarrow> (if \<not> IsLeaf ?n then None else Some ?n))"
      using nk ll by (simp add: Let_def findLongestMatchRec.simps)
    have rch: "reached ?n k =
        (0, ?n) # map (\<lambda>(d, m). (Suc d, m)) (concat (map (\<lambda>c. reached c ?p) chs))"
      using nk ll by (simp add: Let_def reached.simps)
    show ?thesis
    proof (cases "\<forall>c \<in> set chs. reached c ?p = []")
      case True
      then have "findLongestMatchRec_children chs ?p = None"
        by (intro longest_children_none) (simp add: reached_Nil_find)
      moreover from True have "reached ?n k = [(0, ?n)]"
        by (simp add: rch)
      ultimately show ?thesis
        by (simp add: fnd)
    next
      case False
      then obtain c0 where c0in: "c0 \<in> set chs" and c0r: "reached c0 ?p \<noteq> []" by blast
      then obtain pr po where chs: "chs = pr @ c0 # po"
        by (auto dest: split_list)
      have oth: "\<forall>c \<in> set pr \<union> set po. reached c ?p = []"
      proof
        fix c assume c: "c \<in> set pr \<union> set po"
        from siblingsDisjoint_others [of pr c0 po ?p] dis reached_lead [OF c0r] c
        have "longestCommonPrefix (key c) ?p = 0" by (simp add: chs)
        then show "reached c ?p = []" by (rule reached_nocommon)
      qed
      then have prn: "\<forall>c \<in> set pr. findLongestMatchRec c ?p = None"
        and pon: "\<forall>c \<in> set po. findLongestMatchRec c ?p = None"
        by (simp_all add: reached_Nil_find)
      have chf: "findLongestMatchRec_children chs ?p = findLongestMatchRec c0 ?p"
        using longest_children_skip [OF prn, of "c0 # po"] longest_children_none [OF pon]
        by (simp add: chs split: option.splits)
      have rch': "reached ?n k = (0, ?n) # map (\<lambda>(d, m). (Suc d, m)) (reached c0 ?p)"
        unfolding rch by (simp only: chs concat_reached_single [OF oth])
      from cc c0in have "compressed c0" by blast
      note ih = Node.IH [OF c0in this, of ?p]
      show ?thesis
      proof (cases "findLongestMatchRec c0 ?p")
        case None
        with ih have "\<forall>(d, m) \<in> set (reached c0 ?p). \<not> IsLeaf m" by simp
        then show ?thesis
          using None by (auto simp: fnd chf rch')
      next
        case (Some x)
        with ih obtain d where d: "IsLeaf x" "(d, x) \<in> set (reached c0 ?p)"
          "\<forall>(d', m') \<in> set (reached c0 ?p). IsLeaf m' \<longrightarrow> d' \<le> d"
          by auto
        have "(Suc d, x) \<in> set (reached ?n k)"
          using d(2) by (force simp: rch')
        moreover have "\<forall>(d', m') \<in> set (reached ?n k). IsLeaf m' \<longrightarrow> d' \<le> Suc d"
          using d(3) by (fastforce simp: rch')
        ultimately show ?thesis
          using Some d(1) by (simp add: fnd chf) blast
      qed
    qed
  qed
qed

text \<open>
  Claim C6. After inserting \<open>/api/products\<close>, \<open>/api/products/outer\<close> and
  \<open>/api/products/inner\<close> into the empty tree, \<open>FindLongestMatch\<close> of
  \<open>/api/products/list-all\<close> returns the value stored at \<open>/api/products\<close>. In
  general, in a tree built from the empty tree by successful insertions,
  \<open>FindLongestMatch\<close> returns the payload of the deepest payload-carrying node among
  the nodes that the descent reaches, where a node is entered only if the longest
  common prefix of its fragment and the remaining key is the whole fragment and is not
  empty; it returns absence exactly when no reached node carries a payload.
\<close>

theorem findLongestMatch_deepest:
  "(case Insert (Some New) ''/api/products'' v1 of
      (t1, e1) \<Rightarrow>
    case Insert t1 ''/api/products/outer'' v2 of
      (t2, e2) \<Rightarrow>
    case Insert t2 ''/api/products/inner'' v3 of
      (t3, e3) \<Rightarrow>
        e1 = None \<and> e2 = None \<and> e3 = None
        \<and> FindLongestMatch t3 ''/api/products/list-all''
            = Some \<lparr>fvalue = v1, fparams = Map.empty\<rparr>)
   \<and> (insertAll New kvs = Some t \<and> root t = Some r \<and> k \<noteq> [] \<longrightarrow>
        (case FindLongestMatch (Some t) k of
           None \<Rightarrow> \<forall>(d, m) \<in> set (reached r k). \<not> IsLeaf m
         | Some f \<Rightarrow>
             \<exists>d m nv. (d, m) \<in> set (reached r k) \<and> nodeValue m = Some nv
               \<and> f = \<lparr>fvalue = val nv, fparams = Map.empty\<rparr>
               \<and> (\<forall>(d', m') \<in> set (reached r k). IsLeaf m' \<longrightarrow> d' \<le> d)))"
proof (intro conjI impI)
  show "case Insert (Some New) ''/api/products'' v1 of
      (t1, e1) \<Rightarrow>
    case Insert t1 ''/api/products/outer'' v2 of
      (t2, e2) \<Rightarrow>
    case Insert t2 ''/api/products/inner'' v3 of
      (t3, e3) \<Rightarrow>
        e1 = None \<and> e2 = None \<and> e3 = None
        \<and> FindLongestMatch t3 ''/api/products/list-all''
            = Some \<lparr>fvalue = v1, fparams = Map.empty\<rparr>"
    by (simp add: eval_simps insertRec.simps findLongestMatchRec.simps)
next
  assume a: "insertAll New kvs = Some t \<and> root t = Some r \<and> k \<noteq> []"
  have "compressedTree New" by (simp add: compressedTree_def New_def)
  from insertAll_compressed [OF this, of kvs t] a have c: "compressed r"
    by (simp add: compressedTree_def)
  note d = findLongestMatchRec_deepest [OF c, of k]
  show "case FindLongestMatch (Some t) k of
           None \<Rightarrow> \<forall>(d, m) \<in> set (reached r k). \<not> IsLeaf m
         | Some f \<Rightarrow>
             \<exists>d m nv. (d, m) \<in> set (reached r k) \<and> nodeValue m = Some nv
               \<and> f = \<lparr>fvalue = val nv, fparams = Map.empty\<rparr>
               \<and> (\<forall>(d', m') \<in> set (reached r k). IsLeaf m' \<longrightarrow> d' \<le> d)"
  proof (cases "findLongestMatchRec r k")
    case None
    with d a show ?thesis by (simp add: FindLongestMatch_def checkTree_def)
  next
    case (Some x)
    with d obtain nv where "nodeValue x = Some nv" by (auto simp: IsLeaf_def)
    with d a Some show ?thesis
      by (simp add: FindLongestMatch_def checkTree_def) blast
  qed
qed

theorem findLongestMatch_deepest_witness:
  "\<exists>t r. insertAll New [(''/api/products'', 1 :: nat), (''/api/products/outer'', 2),
                        (''/api/products/inner'', 3)] = Some t
     \<and> root t = Some r
     \<and> FindLongestMatch (Some t) ''/api/products/list-all''
         = Some \<lparr>fvalue = 1, fparams = Map.empty\<rparr>
     \<and> (\<exists>d m nv. (d, m) \<in> set (reached r ''/api/products/list-all'')
          \<and> nodeValue m = Some nv \<and> val nv = 1)"
proof -
  let ?kvs = "[(''/api/products'', 1 :: nat), (''/api/products/outer'', 2),
                        (''/api/products/inner'', 3)]"
  let ?k = "''/api/products/list-all''"
  obtain t where t: "insertAll New ?kvs = Some t"
    by (simp add: eval_simps insertRec.simps)
  obtain r where r: "root t = Some r"
    using t by (auto simp: eval_simps insertRec.simps)
  have f: "FindLongestMatch (Some t) ?k = Some \<lparr>fvalue = 1, fparams = Map.empty\<rparr>"
    using t by (auto simp: eval_simps insertRec.simps findLongestMatchRec.simps)
  have "insertAll New ?kvs = Some t \<and> root t = Some r \<and> ?k \<noteq> []"
    using t r by simp
  with findLongestMatch_deepest [where kvs = ?kvs and t = t and r = r and k = ?k, THEN conjunct2]
  have "case FindLongestMatch (Some t) ?k of
           None \<Rightarrow> \<forall>(d, m) \<in> set (reached r ?k). \<not> IsLeaf m
         | Some f \<Rightarrow>
             \<exists>d m nv. (d, m) \<in> set (reached r ?k) \<and> nodeValue m = Some nv
               \<and> f = \<lparr>fvalue = val nv, fparams = Map.empty\<rparr>
               \<and> (\<forall>(d', m') \<in> set (reached r ?k). IsLeaf m' \<longrightarrow> d' \<le> d)"
    by (rule mp)
  then obtain d m nv where dm: "(d, m) \<in> set (reached r ?k)" "nodeValue m = Some nv"
    and eq: "\<lparr>fvalue = 1 :: nat, fparams = Map.empty\<rparr> = \<lparr>fvalue = val nv, fparams = Map.empty\<rparr>"
    unfolding f by auto
  from eq have "val nv = 1" by simp
  with dm have "\<exists>d m nv. (d, m) \<in> set (reached r ?k) \<and> nodeValue m = Some nv \<and> val nv = 1"
    by blast
  with t r f show ?thesis by blast
qed

section \<open>Parameter positions are bytes\<close>

lemma paramToken_in_getPathParams:
  assumes "tok \<in> set (paramTokens k)"
  shows "paramOfToken tok \<in> set (getPathParams k)"
  using assms by (simp add: getPathParams_char)

lemma matchParams_single:
  "matchParams [p] s =
     (if unat (pos p) < length (split_go s slash)
      then [pkey p \<mapsto> split_go s slash ! unat (pos p)] else Map.empty)"
  by (simp add: matchParams_def Let_def)

text \<open>
  Claim C10. Parameter positions are stored as 8-bit unsigned integers. For every key
  inserted (successfully, in a sequence of successful insertions from the empty tree)
  and every \<open>/\<close>-separated token of it that contains a \<open>{\<close>, at index \<open>i\<close> of the
  split, the payload stored under the key holds a descriptor with the token's name whose
  position is \<open>i mod 256\<close>; matching that descriptor against a search key binds the
  name to the segment at index \<open>i mod 256\<close> of the search key, or binds nothing when
  the search key has no such segment. For \<open>i \<ge> 256\<close> this is not the segment that the
  wildcard occupies.
\<close>

theorem param_position_wraps:
  assumes "insertAll New kvs = Some t" and "(k, v) \<in> set kvs"
    and "i < length (split_go k slash)" and "curlyStart \<in> set (split_go k slash ! i)"
  shows "\<exists>nv p. (k, nv) \<in> treeEntries t \<and> val nv = v \<and> p \<in> set (params nv)
           \<and> pkey p = drop 1 (take (length (split_go k slash ! i) - 1) (split_go k slash ! i))
           \<and> unat (pos p) = i mod 256
           \<and> (\<forall>s. matchParams [p] s =
                 (if i mod 256 < length (split_go s slash)
                  then [pkey p \<mapsto> split_go s slash ! (i mod 256)] else Map.empty))"
proof -
  let ?el = "split_go k slash ! i"
  let ?nv = "createNewNodeValue v (getPathParams k)"
  let ?p = "paramOfToken (i, ?el)"
  from insertAll_inv [OF New_wellFormed(1) assms(1)] assms(2)
  have en: "(k, ?nv) \<in> treeEntries t" and kne: "k \<noteq> []" and chk: "checkUrl k = None"
    by (auto simp: New_wellFormed(2))
  have tok: "(i, ?el) \<in> set (enumerate 0 (split_go k slash))"
    using assms(3) by (simp add: in_set_enumerate_eq)
  with validated_isParamToken [OF kne chk tok] assms(4)
  have "(i, ?el) \<in> set (paramTokens k)"
    by (simp add: paramTokens_def)
  then have pin: "?p \<in> set (params ?nv)"
    by (simp add: paramToken_in_getPathParams createNewNodeValue_def)
  have u: "unat (pos ?p) = i mod 256"
    by (simp add: paramOfToken_def unat_of_nat)
  have "val ?nv = v" by (simp add: createNewNodeValue_def)
  moreover have "pkey ?p = drop 1 (take (length ?el - 1) ?el)"
    by (simp add: paramOfToken_def)
  moreover have "\<forall>s. matchParams [?p] s =
                 (if i mod 256 < length (split_go s slash)
                  then [pkey ?p \<mapsto> split_go s slash ! (i mod 256)] else Map.empty)"
    by (simp only: matchParams_single u) simp
  ultimately show ?thesis
    using en pin u by blast
qed

lemma split_go_slashes:
  "split_go (replicate n slash @ xs) slash = replicate n [] @ split_go xs slash"
  by (induction n) simp_all

lemma scan_slashes:
  "malformedWildcard_scan False (replicate n slash @ xs) = malformedWildcard_scan False xs"
  by (induction n) simp_all

lemma checkUrl_slashes: "checkUrl (replicate (Suc n) slash @ ''{id}'') = None"
proof -
  have "(replicate (Suc n) slash @ ''{id}'') ! (length (replicate (Suc n) slash @ ''{id}'') - 1)
      = CHR ''}''"
    by (simp add: nth_append)
  moreover have "\<not> malformedWildcard_scan False ''{id}''"
    by (simp add: curlyStart_def curlyEnd_def slash_def)
  ultimately show ?thesis
    unfolding checkUrl_def checkPathParams_scan scan_slashes
    by (simp add: slash_def)
qed

lemma lcp_common_prefix:
  "longestCommonPrefix (a @ b) (a @ c) = length a + longestCommonPrefix b c"
  by (induction a) simp_all

lemma getPathParams_slashes:
  "getPathParams (replicate n slash @ ''{id}'') = [\<lparr>pkey = ''id'', pos = of_nat n\<rparr>]"
proof -
  let ?k = "replicate n slash @ ''{id}''"
  have f: "filter isParamToken (enumerate m (replicate n [])) = []" for m
    by (induction n arbitrary: m) (simp_all add: isParamToken_def)
  have sp: "split_go ?k slash = replicate n [] @ [''{id}'']"
    unfolding split_go_slashes by (simp add: slash_def)
  have pt: "paramTokens ?k = [(n, ''{id}'')]"
    by (simp add: paramTokens_def sp enumerate_append_eq f isParamToken_def curlyStart_def)
  have "count_list (replicate m slash @ xs) curlyStart = count_list xs curlyStart" for m xs
    by (induction m) simp_all
  then have "count_list ?k curlyStart = 1"
    by (simp add: curlyStart_def)
  then show ?thesis
    by (simp add: getPathParams_char pt paramOfToken_def)
qed

theorem param_position_wraps_witness:
  "\<exists>t nv p. insertAll New [(replicate 256 slash @ ''{id}'', 1 :: nat)] = Some t
     \<and> (replicate 256 slash @ ''{id}'', nv) \<in> treeEntries t
     \<and> p \<in> set (params nv) \<and> pkey p = ''id'' \<and> pos p = 0
     \<and> matchParams [p] (replicate 256 slash @ ''x'') = [''id'' \<mapsto> []]
     \<and> Find (Some t) (replicate 256 slash @ ''x'') = Some \<lparr>fvalue = 1, fparams = [''id'' \<mapsto> []]\<rparr>"
proof -
  let ?k = "replicate 256 slash @ ''{id}''"
  let ?s = "replicate 256 slash @ ''x''"
  let ?kvs = "[(?k, 1 :: nat)]"
  let ?r = "Node ?k (Some \<lparr>val = 1 :: nat, params = [\<lparr>pkey = ''id'', pos = 0\<rparr>]\<rparr>) []"
  have c: "checkUrl ?k = None"
    using checkUrl_slashes [of 255] by simp
  have g: "getPathParams ?k = [\<lparr>pkey = ''id'', pos = 0\<rparr>]"
    using getPathParams_slashes [of 256] by simp
  have t: "insertAll New ?kvs = Some \<lparr>root = Some ?r\<rparr>"
    using c g by (simp add: Insert_def New_def Let_def createNewNode_def createNewNodeValue_def)
  have sp: "split_go ?k slash = replicate 256 [] @ [''{id}'']"
    unfolding split_go_slashes by (simp add: slash_def)
  have i: "256 < length (split_go ?k slash)" by (simp add: sp)
  have el: "split_go ?k slash ! 256 = ''{id}''" by (simp add: sp nth_append)
  have m: "(?k, 1) \<in> set ?kvs" by simp
  have b: "curlyStart \<in> set (split_go ?k slash ! 256)" by (simp add: el curlyStart_def)
  from param_position_wraps [OF t m i b]
  obtain nv p where p: "(?k, nv) \<in> treeEntries \<lparr>root = Some ?r\<rparr>" "p \<in> set (params nv)"
    "pkey p = drop 1 (take (length (split_go ?k slash ! 256) - 1) (split_go ?k slash ! 256))"
    "unat (pos p) = 256 mod 256"
    "\<forall>s. matchParams [p] s =
                 (if 256 mod 256 < length (split_go s slash)
                  then [pkey p \<mapsto> split_go s slash ! (256 mod 256)] else Map.empty)"
    by blast
  from p(3) have n: "pkey p = ''id''" by (simp add: el)
  from p(4) have z: "pos p = 0" by (simp add: unat_eq_0)
  have sps: "split_go ?s slash = replicate 256 [] @ [''x'']"
    unfolding split_go_slashes by (simp add: slash_def)
  with p(5) n have mp: "matchParams [p] ?s = [''id'' \<mapsto> []]"
    by (simp add: nth_append)
  have l: "longestCommonPrefix ?k ?s = 256"
    unfolding lcp_common_prefix by simp
  have o: "getOffsets ''{id}'' ''x'' True = (4, 1, False)"
    by (simp add: eval_simps)
  have "findRec ?r ?s False = Some ?r"
    by (simp add: l o Let_def IsLeaf_def curlyStart_def)
  moreover have "matchParams [\<lparr>pkey = ''id'', pos = 0\<rparr>] ?s = [''id'' \<mapsto> []]"
    by (simp add: matchParams_single sps nth_append)
  ultimately have "Find (Some \<lparr>root = Some ?r\<rparr>) ?s
      = Some \<lparr>fvalue = 1, fparams = [''id'' \<mapsto> []]\<rparr>"
    by (simp add: Find_def checkTree_def)
  with t p(1,2) n z mp show ?thesis by blast
qed

end
